theory Spec2Isabelle
  imports Main
begin

section \<open>Python values: errors, list indexing, matrices, loops\<close>

text \<open>
  The exceptions the modelled code can raise.  A function of the program that may raise
  returns \<open>error + 'a\<close>, with \<open>Inl\<close> for the exception.
\<close>

datatype error = IndexError | KeyError | OverflowError | ZeroDivisionError

type_synonym matrix = "int list list"

definition ebind :: "error + 'a \<Rightarrow> ('a \<Rightarrow> error + 'b) \<Rightarrow> error + 'b" where
  "ebind m f = (case m of Inl e \<Rightarrow> Inl e | Inr x \<Rightarrow> f x)"

text \<open>
  Python list subscription \<open>xs[i]\<close>: a negative index counts from the end, an index
  outside \<open>[-len, len)\<close> raises IndexError.
\<close>

definition py_index :: "'a list \<Rightarrow> int \<Rightarrow> error + nat" where
  "py_index xs i =
     (if 0 \<le> i \<and> i < int (length xs) then Inr (nat i)
      else if - int (length xs) \<le> i \<and> i < 0 then Inr (nat (int (length xs) + i))
      else Inl IndexError)"

definition py_get :: "'a list \<Rightarrow> int \<Rightarrow> error + 'a" where
  "py_get xs i = (case py_index xs i of Inl e \<Rightarrow> Inl e | Inr k \<Rightarrow> Inr (xs ! k))"

definition py_set :: "'a list \<Rightarrow> int \<Rightarrow> 'a \<Rightarrow> error + 'a list" where
  "py_set xs i v = (case py_index xs i of Inl e \<Rightarrow> Inl e | Inr k \<Rightarrow> Inr (xs[k := v]))"

text \<open>\<open>m[i][j]\<close> and \<open>m[i][j] = v\<close> on a list of row lists (the rows are separate objects).\<close>

definition mget :: "matrix \<Rightarrow> int \<Rightarrow> int \<Rightarrow> error + int" where
  "mget m i j = (case py_get m i of Inl e \<Rightarrow> Inl e | Inr row \<Rightarrow> py_get row j)"

definition mset :: "matrix \<Rightarrow> int \<Rightarrow> int \<Rightarrow> int \<Rightarrow> error + matrix" where
  "mset m i j v =
     (case py_get m i of Inl e \<Rightarrow> Inl e
      | Inr row \<Rightarrow> (case py_set row j v of Inl e \<Rightarrow> Inl e | Inr row' \<Rightarrow> py_set m i row'))"

text \<open>\<open>d[k]\<close> on a dict raises KeyError for a missing key.\<close>

definition dict_get :: "('k \<rightharpoonup> 'v) \<Rightarrow> 'k \<Rightarrow> error + 'v" where
  "dict_get d k = (case d k of None \<Rightarrow> Inl KeyError | Some v \<Rightarrow> Inr v)"

text \<open>\<open>range(n)\<close>, and \<open>[[0] * n for _ in range(n)]\<close>.\<close>

definition range :: "nat \<Rightarrow> int list" where
  "range n = map int [0..<n]"

definition zeros :: "nat \<Rightarrow> matrix" where
  "zeros n = replicate n (replicate n 0)"

text \<open>A \<open>for x in xs\<close> loop whose body updates a state and may raise.\<close>

fun for_each :: "'a list \<Rightarrow> ('a \<Rightarrow> 's \<Rightarrow> error + 's) \<Rightarrow> 's \<Rightarrow> error + 's" where
  "for_each [] body s = Inr s"
| "for_each (x # xs) body s =
     (case body x s of Inl e \<Rightarrow> Inl e | Inr s' \<Rightarrow> for_each xs body s')"

text \<open>\<open>sum(f(x) for x in xs)\<close> where evaluating \<open>f(x)\<close> may raise.\<close>

fun sum_gen :: "'a list \<Rightarrow> ('a \<Rightarrow> error + int) \<Rightarrow> error + int" where
  "sum_gen [] f = Inr 0"
| "sum_gen (x # xs) f =
     (case f x of Inl e \<Rightarrow> Inl e
      | Inr v \<Rightarrow> (case sum_gen xs f of Inl e \<Rightarrow> Inl e | Inr s \<Rightarrow> Inr (v + s)))"

section \<open>The logistics network (task1/modules/logistics\_network.py)\<close>

text \<open>
  The node names of the source are Ukrainian words; they are only used as dictionary keys
  and are written here in Latin letters (Terminal, Sklad, Magazyn).
\<close>

fun str_nat :: "nat \<Rightarrow> string" where
  "str_nat n =
     (if n < 10 then [char_of (48 + n)]
      else str_nat (n div 10) @ [char_of (48 + n mod 10)])"

declare str_nat.simps [simp del]

definition terminals :: "string list" where
  "terminals = [''Terminal 1'', ''Terminal 2'']"

definition warehouses :: "string list" where
  "warehouses = [''Sklad 1'', ''Sklad 2'', ''Sklad 3'', ''Sklad 4'']"

definition stores :: "string list" where
  "stores = map (\<lambda>i. ''Magazyn '' @ str_nat i) [1..<15]"

definition edges :: "(string \<times> string \<times> int) list" where
  "edges =
    [(''Terminal 1'', ''Sklad 1'', 25),
     (''Terminal 1'', ''Sklad 2'', 20),
     (''Terminal 1'', ''Sklad 3'', 15),
     (''Terminal 2'', ''Sklad 3'', 15),
     (''Terminal 2'', ''Sklad 4'', 30),
     (''Terminal 2'', ''Sklad 2'', 10),
     (''Sklad 1'', ''Magazyn 1'', 15),
     (''Sklad 1'', ''Magazyn 2'', 10),
     (''Sklad 1'', ''Magazyn 3'', 20),
     (''Sklad 2'', ''Magazyn 4'', 15),
     (''Sklad 2'', ''Magazyn 5'', 10),
     (''Sklad 2'', ''Magazyn 6'', 25),
     (''Sklad 3'', ''Magazyn 7'', 20),
     (''Sklad 3'', ''Magazyn 8'', 15),
     (''Sklad 3'', ''Magazyn 9'', 10),
     (''Sklad 4'', ''Magazyn 10'', 20),
     (''Sklad 4'', ''Magazyn 11'', 10),
     (''Sklad 4'', ''Magazyn 12'', 15),
     (''Sklad 4'', ''Magazyn 13'', 5),
     (''Sklad 4'', ''Magazyn 14'', 10)]"

text \<open>\<open>{node: i for i, node in enumerate(nodes)}\<close>: a later duplicate overwrites.\<close>

definition index_dict :: "string list \<Rightarrow> (string \<rightharpoonup> int)" where
  "index_dict nodes =
     fold (\<lambda>(i, node) d. d(node \<mapsto> int i)) (zip [0..<length nodes] nodes) Map.empty"

definition fill_edge ::
  "(string \<rightharpoonup> int) \<Rightarrow> string \<times> string \<times> int \<Rightarrow> matrix \<Rightarrow> error + matrix" where
  "fill_edge node_indices e capacity_matrix =
     (case e of (from_node, to_node, capacity) \<Rightarrow>
        ebind (dict_get node_indices from_node) (\<lambda>from_idx.
        ebind (dict_get node_indices to_node) (\<lambda>to_idx.
        mset capacity_matrix from_idx to_idx capacity)))"

definition build_logistics_network ::
  "error + (string list \<times> (string \<rightharpoonup> int) \<times> matrix)" where
  "build_logistics_network =
     (let nodes = terminals @ warehouses @ stores;
          node_indices = index_dict nodes;
          n = length nodes;
          capacity_matrix = zeros n
      in ebind (for_each edges (fill_edge node_indices) capacity_matrix)
           (\<lambda>capacity_matrix. Inr (nodes, node_indices, capacity_matrix)))"

section \<open>Super-source and super-sink (task1.py, main)\<close>

text \<open>
  The part of \<open>main\<close> that builds \<open>extended_capacity\<close>.  In the source the two lists of
  names that are wired to the synthetic nodes are literals inside \<open>main\<close>; here they are
  the arguments \<open>ts\<close> and \<open>ss\<close>, and \<open>main_extended_capacity\<close> below passes the literals.
\<close>

definition copy_entry :: "matrix \<Rightarrow> int \<Rightarrow> int \<Rightarrow> matrix \<Rightarrow> error + matrix" where
  "copy_entry capacity_matrix i j extended_capacity =
     ebind (mget capacity_matrix i j) (\<lambda>v. mset extended_capacity i j v)"

definition connect_source :: "(string \<rightharpoonup> int) \<Rightarrow> int \<Rightarrow> string \<Rightarrow> matrix \<Rightarrow> error + matrix" where
  "connect_source node_indices super_source t extended_capacity =
     ebind (dict_get node_indices t) (\<lambda>t_idx. mset extended_capacity super_source t_idx 100)"

definition connect_sink :: "(string \<rightharpoonup> int) \<Rightarrow> int \<Rightarrow> string \<Rightarrow> matrix \<Rightarrow> error + matrix" where
  "connect_sink node_indices super_sink s extended_capacity =
     ebind (dict_get node_indices s) (\<lambda>s_idx. mset extended_capacity s_idx super_sink 100)"

definition extend_capacity ::
  "string list \<Rightarrow> (string \<rightharpoonup> int) \<Rightarrow> matrix \<Rightarrow> string list \<Rightarrow> string list \<Rightarrow> error + matrix" where
  "extend_capacity nodes node_indices capacity_matrix ts ss =
     (let n = length nodes;
          super_source = int n;
          super_sink = int n + 1;
          extended_capacity = zeros (n + 2)
      in ebind (for_each (range n)
                  (\<lambda>i. for_each (range n) (\<lambda>j. copy_entry capacity_matrix i j))
                  extended_capacity) (\<lambda>extended_capacity.
         ebind (for_each ts (connect_source node_indices super_source) extended_capacity)
           (\<lambda>extended_capacity.
         for_each ss (connect_sink node_indices super_sink) extended_capacity)))"

definition main_extended_capacity :: "error + matrix" where
  "main_extended_capacity =
     ebind build_logistics_network (\<lambda>(nodes, node_indices, capacity_matrix).
       extend_capacity nodes node_indices capacity_matrix terminals stores)"

section \<open>Diagnostics (analyze\_network)\<close>

text \<open>The per-warehouse dict of \<open>analyze_network\<close>, and the dict it returns.\<close>

record utilization =
  inflow :: int
  outflow :: int
  in_capacity :: int
  out_capacity :: int
  in_utilization :: int
  out_utilization :: int

text \<open>
  One entry of the solver's \<open>path_history\<close>: the dict \<open>{'path': path, 'flow': path_flow}\<close>.
\<close>

record augmenting_path =
  path :: "int list"
  flow :: int

record analysis =
  bottlenecks :: "(string \<times> string \<times> int) list"
  terminal_outflows :: "string \<rightharpoonup> int"
  store_inflows :: "(string \<times> int) list"
  warehouse_utilization :: "string \<rightharpoonup> utilization"
  paths :: "augmenting_path list"

definition bottleneck_entry ::
  "matrix \<Rightarrow> matrix \<Rightarrow> string list \<Rightarrow> int \<Rightarrow> int \<Rightarrow> (string \<times> string \<times> int) list
     \<Rightarrow> error + (string \<times> string \<times> int) list" where
  "bottleneck_entry capacity_matrix fm nodes i j found =
     ebind (mget capacity_matrix i j) (\<lambda>cv.
       if cv > 0 then
         ebind (mget fm i j) (\<lambda>fv.
           if fv = cv then
             ebind (py_get nodes i) (\<lambda>ni.
             ebind (py_get nodes j) (\<lambda>nj. Inr (found @ [(ni, nj, cv)])))
           else Inr found)
       else Inr found)"

definition terminal_outflow ::
  "matrix \<Rightarrow> (string \<rightharpoonup> int) \<Rightarrow> string \<Rightarrow> (string \<rightharpoonup> int) \<Rightarrow> error + (string \<rightharpoonup> int)" where
  "terminal_outflow fm node_indices t outflows =
     ebind (dict_get node_indices t) (\<lambda>t_idx.
     ebind (py_get fm t_idx) (\<lambda>row. Inr (outflows(t \<mapsto> sum_list row))))"

text \<open>
  \<open>store_inflows\<close> is iterated in insertion order when it is sorted, so it is an
  association list; assigning to a key that is present keeps the key's place.
\<close>

fun dict_put :: "'k \<Rightarrow> 'v \<Rightarrow> ('k \<times> 'v) list \<Rightarrow> ('k \<times> 'v) list" where
  "dict_put k v [] = [(k, v)]"
| "dict_put k v ((k', v') # d) = (if k = k' then (k, v) # d else (k', v') # dict_put k v d)"

definition store_inflow ::
  "matrix \<Rightarrow> string list \<Rightarrow> (string \<rightharpoonup> int) \<Rightarrow> string \<Rightarrow> (string \<times> int) list
     \<Rightarrow> error + (string \<times> int) list" where
  "store_inflow fm nodes node_indices s inflows =
     ebind (dict_get node_indices s) (\<lambda>s_idx.
     ebind (sum_gen (range (length nodes)) (\<lambda>i. mget fm i s_idx)) (\<lambda>total.
       Inr (dict_put s total inflows)))"

subsection \<open>Floating point: \<open>round(a / b * 100)\<close>\<close>

text \<open>
  The utilization is computed in double precision.  A finite double is \<open>m * 2 ^ e\<close> for
  integers \<open>m\<close> and \<open>e\<close>, written \<open>Finite m e\<close>; \<open>Infinity\<close> is an infinite product.  The sign
  of an infinity and the sign of a zero are not recorded: the only operation applied to
  either is \<open>round\<close>, which raises OverflowError for both infinities and returns the
  integer 0 for both zeros.  No operation below produces a NaN.
\<close>

datatype float = Finite int int | Infinity

text \<open>\<open>n.bit_length()\<close>: the number of binary digits of \<open>\<bar>n\<bar>\<close>.\<close>

function bit_length :: "int \<Rightarrow> int" where
  "bit_length n = (if n = 0 then 0 else 1 + bit_length (\<bar>n\<bar> div 2))"
  by pat_completeness auto

termination bit_length
  by (relation "measure (\<lambda>n. nat \<bar>n\<bar>)") auto

declare bit_length.simps [simp del]

text \<open>The integer nearest to \<open>p / q\<close> for \<open>q > 0\<close>, a tie going to the even neighbour.\<close>

definition round_half_even :: "int \<Rightarrow> int \<Rightarrow> int" where
  "round_half_even p q =
     (let f = p div q; r = p mod q
      in if 2 * r < q then f
         else if 2 * r > q then f + 1
         else if even f then f else f + 1)"

text \<open>The largest \<open>e\<close> with \<open>2 ^ e \<le> p / q\<close>, for positive \<open>p\<close> and \<open>q\<close>.\<close>

definition floor_log2 :: "int \<Rightarrow> int \<Rightarrow> int" where
  "floor_log2 p q =
     (let e = bit_length p - bit_length q
      in if (if e \<ge> 0 then q * 2 ^ nat e \<le> p else q \<le> p * 2 ^ nat (- e)) then e
         else e - 1)"

text \<open>
  The double nearest to the rational \<open>p / q\<close> (\<open>q > 0\<close>) under IEEE 754 round-to-nearest,
  ties to even: 53 significant bits, the last bit no finer than \<open>2 ^ (-1074)\<close>, and
  \<open>Infinity\<close> when the rounded value reaches \<open>2 ^ 1024\<close>.
\<close>

definition nearest_double :: "int \<Rightarrow> int \<Rightarrow> float" where
  "nearest_double p q =
     (if p = 0 then Finite 0 0
      else
        let e = max (floor_log2 \<bar>p\<bar> q) (- 1022) - 52;
            m = (if e \<ge> 0 then round_half_even p (q * 2 ^ nat e)
                 else round_half_even (p * 2 ^ nat (- e)) q)
        in if e > 971 \<or> (e = 971 \<and> \<bar>m\<bar> \<ge> 2 ^ 53) then Infinity else Finite m e)"

text \<open>
  \<open>a / b\<close> on integers: the correctly rounded quotient; OverflowError when it is too large
  for a double, ZeroDivisionError for \<open>b = 0\<close>.
\<close>

definition int_truediv :: "int \<Rightarrow> int \<Rightarrow> error + float" where
  "int_truediv a b =
     (if b = 0 then Inl ZeroDivisionError
      else (case nearest_double (a * sgn b) \<bar>b\<bar> of
              Infinity \<Rightarrow> Inl OverflowError
            | Finite m e \<Rightarrow> Inr (Finite m e)))"

text \<open>
  \<open>x * 100\<close> on a float: the integer 100 is converted exactly, the product is rounded, and
  a product that is too large is an infinity (no exception).
\<close>

definition times_100 :: "float \<Rightarrow> float" where
  "times_100 x =
     (case x of
        Infinity \<Rightarrow> Infinity
      | Finite m e \<Rightarrow>
          if e \<ge> 0 then nearest_double (100 * m * 2 ^ nat e) 1
          else nearest_double (100 * m) (2 ^ nat (- e)))"

text \<open>
  \<open>round(x)\<close> on a float: the nearest integer, a tie going to the even one; OverflowError
  for an infinity.
\<close>

definition py_round :: "float \<Rightarrow> error + int" where
  "py_round x =
     (case x of
        Infinity \<Rightarrow> Inl OverflowError
      | Finite m e \<Rightarrow>
          Inr (if e \<ge> 0 then m * 2 ^ nat e else round_half_even m (2 ^ nat (- e))))"

text \<open>The expression \<open>round(a / b * 100)\<close> for integers \<open>a\<close> and \<open>b\<close>.\<close>

definition percent :: "int \<Rightarrow> int \<Rightarrow> error + int" where
  "percent a b = ebind (int_truediv a b) (\<lambda>x. py_round (times_100 x))"

subsection \<open>The warehouse records and the analysis\<close>

text \<open>
  The entries of the dict literal are evaluated in order, \<open>in_utilization\<close> before
  \<open>out_utilization\<close>; either division may raise.
\<close>

definition warehouse_record ::
  "matrix \<Rightarrow> matrix \<Rightarrow> string list \<Rightarrow> (string \<rightharpoonup> int) \<Rightarrow> string \<Rightarrow> error + utilization" where
  "warehouse_record capacity_matrix fm nodes node_indices w =
     ebind (dict_get node_indices w) (\<lambda>w_idx.
     let others = filter (\<lambda>i. i \<noteq> w_idx) (range (length nodes)) in
     ebind (sum_gen others (\<lambda>i. mget fm i w_idx)) (\<lambda>inflow.
     ebind (sum_gen others (\<lambda>j. mget fm w_idx j)) (\<lambda>outflow.
     ebind (sum_gen others (\<lambda>i. mget capacity_matrix i w_idx)) (\<lambda>total_in_capacity.
     ebind (sum_gen others (\<lambda>j. mget capacity_matrix w_idx j)) (\<lambda>total_out_capacity.
     ebind (if total_in_capacity > 0 then percent inflow total_in_capacity else Inr 0)
       (\<lambda>in_percent.
     ebind (if total_out_capacity > 0 then percent outflow total_out_capacity else Inr 0)
       (\<lambda>out_percent.
       Inr \<lparr>inflow = inflow, outflow = outflow,
            in_capacity = total_in_capacity, out_capacity = total_out_capacity,
            in_utilization = in_percent, out_utilization = out_percent\<rparr>)))))))"

definition warehouse_entry ::
  "matrix \<Rightarrow> matrix \<Rightarrow> string list \<Rightarrow> (string \<rightharpoonup> int) \<Rightarrow> string
     \<Rightarrow> (string \<rightharpoonup> utilization) \<Rightarrow> error + (string \<rightharpoonup> utilization)" where
  "warehouse_entry capacity_matrix fm nodes node_indices w util =
     ebind (warehouse_record capacity_matrix fm nodes node_indices w)
       (\<lambda>r. Inr (util(w \<mapsto> r)))"

definition analyze_network ::
  "matrix \<Rightarrow> matrix \<Rightarrow> string list \<Rightarrow> (string \<rightharpoonup> int) \<Rightarrow> augmenting_path list
     \<Rightarrow> error + analysis" where
  "analyze_network capacity_matrix fm nodes node_indices path_history =
     (let r = range (length nodes) in
      ebind (for_each r (\<lambda>i. for_each r (\<lambda>j. bottleneck_entry capacity_matrix fm nodes i j)) [])
        (\<lambda>found.
      ebind (for_each terminals (terminal_outflow fm node_indices) Map.empty) (\<lambda>outflows.
      ebind (for_each stores (store_inflow fm nodes node_indices) []) (\<lambda>inflows.
      ebind (for_each warehouses
               (warehouse_entry capacity_matrix fm nodes node_indices) Map.empty)
        (\<lambda>util.
        Inr \<lparr>bottlenecks = found, terminal_outflows = outflows,
             store_inflows = sort_key snd inflows,
             warehouse_utilization = util, paths = path_history\<rparr>)))))"

section \<open>The Edmonds-Karp solver (task1/modules/edmonds\_karp.py)\<close>

subsection \<open>Breadth-first search on the residual network\<close>

text \<open>
  The outcome of the \<open>for neighbor in range(num_nodes)\<close> loop for one dequeued node:
  \<open>Found parent\<close> when the loop executed \<open>return True\<close>, otherwise
  \<open>Scanned parent visited queue\<close> with the lists as the loop left them.
\<close>

datatype scan = Found "int list" | Scanned "int list" "bool list" "int list"

fun bfs_neighbors ::
  "matrix \<Rightarrow> matrix \<Rightarrow> int \<Rightarrow> int \<Rightarrow> int list \<Rightarrow> int list \<Rightarrow> bool list \<Rightarrow> int list
     \<Rightarrow> error + scan" where
  "bfs_neighbors capacity_matrix flow_matrix sink current_node [] parent visited queue =
     Inr (Scanned parent visited queue)"
| "bfs_neighbors capacity_matrix flow_matrix sink current_node (neighbor # rest)
       parent visited queue =
     (case mget capacity_matrix current_node neighbor of Inl e \<Rightarrow> Inl e
      | Inr cv \<Rightarrow>
     (case mget flow_matrix current_node neighbor of Inl e \<Rightarrow> Inl e
      | Inr fv \<Rightarrow>
     (case py_get visited neighbor of Inl e \<Rightarrow> Inl e
      | Inr seen \<Rightarrow>
        if \<not> seen \<and> cv - fv > 0 then
          (case py_set parent neighbor current_node of Inl e \<Rightarrow> Inl e
           | Inr parent' \<Rightarrow>
          (case py_set visited neighbor True of Inl e \<Rightarrow> Inl e
           | Inr visited' \<Rightarrow>
             if neighbor = sink then Inr (Found parent')
             else bfs_neighbors capacity_matrix flow_matrix sink current_node rest
                    parent' visited' (queue @ [neighbor])))
        else bfs_neighbors capacity_matrix flow_matrix sink current_node rest
               parent visited queue)))"

definition unvisited :: "bool list \<Rightarrow> nat" where
  "unvisited visited = length (filter Not visited)"

text \<open>The \<open>while queue\<close> loop; \<open>queue.popleft()\<close> takes the head of the list.\<close>

function bfs_loop ::
  "matrix \<Rightarrow> matrix \<Rightarrow> int \<Rightarrow> nat \<Rightarrow> int list \<Rightarrow> bool list \<Rightarrow> int list
     \<Rightarrow> error + bool \<times> int list" where
  "bfs_loop capacity_matrix flow_matrix sink num_nodes parent visited [] = Inr (False, parent)"
| "bfs_loop capacity_matrix flow_matrix sink num_nodes parent visited (current_node # queue) =
     (case bfs_neighbors capacity_matrix flow_matrix sink current_node (range num_nodes)
             parent visited queue of
        Inl e \<Rightarrow> Inl e
      | Inr (Found parent') \<Rightarrow> Inr (True, parent')
      | Inr (Scanned parent' visited' queue') \<Rightarrow>
          bfs_loop capacity_matrix flow_matrix sink num_nodes parent' visited' queue')"
  by pat_completeness auto

text \<open>
  \<open>bfs\<close> returns its boolean together with the list \<open>parent\<close>, which the source
  mutates in place for the caller.
\<close>

definition bfs ::
  "matrix \<Rightarrow> matrix \<Rightarrow> int \<Rightarrow> int \<Rightarrow> int list \<Rightarrow> error + bool \<times> int list" where
  "bfs capacity_matrix flow_matrix source sink parent =
     (let num_nodes = length capacity_matrix;
          visited = replicate num_nodes False;
          queue = [source]
      in case py_set visited source True of Inl e \<Rightarrow> Inl e
         | Inr visited \<Rightarrow> bfs_loop capacity_matrix flow_matrix sink num_nodes parent visited queue)"

subsection \<open>The augmenting loop\<close>

text \<open>
  The variables of \<open>edmonds_karp\<close> that live across iterations of its \<open>while\<close> loop.
\<close>

record ek_state =
  flow_matrix :: matrix
  parent :: "int list"
  max_flow :: int
  path_history :: "augmenting_path list"

text \<open>
  \<open>path_flow\<close> starts as \<open>float('Inf')\<close>, written \<open>None\<close>; \<open>min(path_flow, r)\<close> with
  an integer \<open>r\<close> is then \<open>r\<close>.
\<close>

fun py_min :: "int option \<Rightarrow> int \<Rightarrow> int option" where
  "py_min None r = Some r"
| "py_min (Some p) r = Some (min p r)"

text \<open>
  The first inner loop: from the sink back along \<open>parent\<close>, collecting the bottleneck and
  the path.  The loop runs until it meets the source, so it is a partial function: \<open>None\<close>
  is a loop that never ends.
\<close>

partial_function (option) find_bottleneck ::
  "matrix \<Rightarrow> matrix \<Rightarrow> int list \<Rightarrow> int \<Rightarrow> int \<Rightarrow> int option \<Rightarrow> int list
     \<Rightarrow> (error + int option \<times> int list) option" where
  "find_bottleneck capacity_matrix fm par source current_node path_flow pth =
     (if current_node \<noteq> source then
        (case py_get par current_node of Inl e \<Rightarrow> Some (Inl e)
         | Inr previous_node \<Rightarrow>
        (case mget capacity_matrix previous_node current_node of Inl e \<Rightarrow> Some (Inl e)
         | Inr cv \<Rightarrow>
        (case mget fm previous_node current_node of Inl e \<Rightarrow> Some (Inl e)
         | Inr fv \<Rightarrow>
           find_bottleneck capacity_matrix fm par source previous_node
             (py_min path_flow (cv - fv)) (pth @ [previous_node]))))
      else Some (Inr (path_flow, pth)))"

declare find_bottleneck.simps [code]

text \<open>\<open>m[i][j] += d\<close> and \<open>m[i][j] -= d\<close>.\<close>

definition madd :: "matrix \<Rightarrow> int \<Rightarrow> int \<Rightarrow> int \<Rightarrow> error + matrix" where
  "madd m i j d = (case mget m i j of Inl e \<Rightarrow> Inl e | Inr v \<Rightarrow> mset m i j (v + d))"

definition msub :: "matrix \<Rightarrow> int \<Rightarrow> int \<Rightarrow> int \<Rightarrow> error + matrix" where
  "msub m i j d = (case mget m i j of Inl e \<Rightarrow> Inl e | Inr v \<Rightarrow> mset m i j (v - d))"

text \<open>The second inner loop: push \<open>path_flow\<close> along the path, and back on the reverse edges.\<close>

partial_function (option) push_flow ::
  "matrix \<Rightarrow> int list \<Rightarrow> int \<Rightarrow> int \<Rightarrow> int \<Rightarrow> (error + matrix) option" where
  "push_flow fm par source current_node path_flow =
     (if current_node \<noteq> source then
        (case py_get par current_node of Inl e \<Rightarrow> Some (Inl e)
         | Inr previous_node \<Rightarrow>
        (case madd fm previous_node current_node path_flow of Inl e \<Rightarrow> Some (Inl e)
         | Inr fm1 \<Rightarrow>
        (case msub fm1 current_node previous_node path_flow of Inl e \<Rightarrow> Some (Inl e)
         | Inr fm2 \<Rightarrow> push_flow fm2 par source previous_node path_flow)))
      else Some (Inr fm))"

declare push_flow.simps [code]

text \<open>
  One pass through the \<open>while bfs(...)\<close> loop: \<open>Some (Inr None)\<close> when \<open>bfs\<close> returned
  False and the loop is left, \<open>Some (Inr (Some st'))\<close> with the state after the body
  otherwise.  A bottleneck that is still \<open>float('Inf')\<close> after the first inner loop (the
  sink is the source) leaves the flow matrix as it is, so that the same search would be
  repeated for ever: that is \<open>None\<close>.
\<close>

definition ek_iteration ::
  "matrix \<Rightarrow> int \<Rightarrow> int \<Rightarrow> ek_state \<Rightarrow> (error + ek_state option) option" where
  "ek_iteration capacity_matrix source sink st =
     (case bfs capacity_matrix (flow_matrix st) source sink (parent st) of
        Inl e \<Rightarrow> Some (Inl e)
      | Inr (found, par) \<Rightarrow>
          if \<not> found then Some (Inr None)
          else
            (case find_bottleneck capacity_matrix (flow_matrix st) par source sink None [sink] of
               None \<Rightarrow> None
             | Some (Inl e) \<Rightarrow> Some (Inl e)
             | Some (Inr (None, pth)) \<Rightarrow> None
             | Some (Inr (Some path_flow, pth)) \<Rightarrow>
                 (case push_flow (flow_matrix st) par source sink path_flow of
                    None \<Rightarrow> None
                  | Some (Inl e) \<Rightarrow> Some (Inl e)
                  | Some (Inr fm) \<Rightarrow>
                      Some (Inr (Some
                        \<lparr>flow_matrix = fm, parent = par,
                         max_flow = max_flow st + path_flow,
                         path_history = path_history st
                           @ [\<lparr>path = rev pth, flow = path_flow\<rparr>]\<rparr>)))))"

partial_function (option) ek_loop ::
  "matrix \<Rightarrow> int \<Rightarrow> int \<Rightarrow> ek_state \<Rightarrow> (error + int \<times> matrix \<times> augmenting_path list) option"
  where
  "ek_loop capacity_matrix source sink st =
     (case ek_iteration capacity_matrix source sink st of
        None \<Rightarrow> None
      | Some (Inl e) \<Rightarrow> Some (Inl e)
      | Some (Inr None) \<Rightarrow> Some (Inr (max_flow st, flow_matrix st, path_history st))
      | Some (Inr (Some st')) \<Rightarrow> ek_loop capacity_matrix source sink st')"

declare ek_loop.simps [code]

definition ek_init :: "matrix \<Rightarrow> ek_state" where
  "ek_init capacity_matrix =
     (let num_nodes = length capacity_matrix
      in \<lparr>flow_matrix = zeros num_nodes, parent = replicate num_nodes (- 1),
          max_flow = 0, path_history = []\<rparr>)"

definition edmonds_karp ::
  "matrix \<Rightarrow> int \<Rightarrow> int \<Rightarrow> (error + int \<times> matrix \<times> augmenting_path list) option" where
  "edmonds_karp capacity_matrix source sink =
     ek_loop capacity_matrix source sink (ek_init capacity_matrix)"

section \<open>The run of main (task1.py)\<close>

text \<open>
  \<open>main\<close> from the augmentation to the call of the solver, with the node list, the node
  index and the capacity matrix it got from \<open>build_logistics_network\<close> and the two name
  lists: an exception raised by the augmentation ends the run before \<open>edmonds_karp\<close> is
  called.  \<open>None\<close> is a solver that does not return.
\<close>

definition solve_network ::
  "string list \<Rightarrow> (string \<rightharpoonup> int) \<Rightarrow> matrix \<Rightarrow> string list \<Rightarrow> string list
     \<Rightarrow> (error + int \<times> matrix \<times> augmenting_path list) option" where
  "solve_network nodes node_indices capacity_matrix ts ss =
     (case extend_capacity nodes node_indices capacity_matrix ts ss of
        Inl e \<Rightarrow> Some (Inl e)
      | Inr extended \<Rightarrow>
          edmonds_karp extended (int (length nodes)) (int (length nodes) + 1))"

text \<open>
  The arguments \<open>main\<close> passes to \<open>analyze_network\<close>: the network as built, the solver's
  flow matrix cut back to the original size by \<open>[row[:n] for row in flow_matrix[:n]]\<close>,
  and the path history.  The calls of \<open>get_edges_from_matrix\<close> and
  \<open>calculate_terminal_to_store_flow\<close> in between only read their arguments, and their
  results are not passed on to \<open>analyze_network\<close>; they are not modelled.
\<close>

definition main_solution ::
  "(error + string list \<times> (string \<rightharpoonup> int) \<times> matrix \<times> matrix \<times> augmenting_path list) option"
  where
  "main_solution =
     (case build_logistics_network of
        Inl e \<Rightarrow> Some (Inl e)
      | Inr (nodes, node_indices, capacity_matrix) \<Rightarrow>
          (case solve_network nodes node_indices capacity_matrix terminals stores of
             None \<Rightarrow> None
           | Some (Inl e) \<Rightarrow> Some (Inl e)
           | Some (Inr (mf, fm, ph)) \<Rightarrow>
               Some (Inr (nodes, node_indices, capacity_matrix,
                          map (take (length nodes)) (take (length nodes) fm), ph))))"

section \<open>Notions used in the properties\<close>

text \<open>Total outgoing and total incoming capacity of a node.\<close>

definition out_capacity_of :: "matrix \<Rightarrow> int \<Rightarrow> int" where
  "out_capacity_of c i = sum_list (c ! nat i)"

definition in_capacity_of :: "matrix \<Rightarrow> int \<Rightarrow> int" where
  "in_capacity_of c j = sum_list (map (\<lambda>row. row ! nat j) c)"

text \<open>
  The capacity matrix that \<open>build_logistics_network\<close> returns, and the extended matrix
  that \<open>main\<close> passes to the solver.
\<close>

definition network_capacity :: matrix where
  "network_capacity =
     (case build_logistics_network of Inl e \<Rightarrow> [] | Inr (nodes, node_indices, c) \<Rightarrow> c)"

definition extended_capacity :: matrix where
  "extended_capacity = (case main_extended_capacity of Inl e \<Rightarrow> [] | Inr ext \<Rightarrow> ext)"

text \<open>A matrix of \<open>k\<close> rows of length \<open>k\<close>.\<close>

definition dims :: "nat \<Rightarrow> matrix \<Rightarrow> bool" where
  "dims k m = (length m = k \<and> list_all (\<lambda>row. length row = k) m)"


text \<open>The entry of a matrix at non-negative indices.\<close>

definition ent :: "matrix \<Rightarrow> int \<Rightarrow> int \<Rightarrow> int" where
  "ent m i j = m ! nat i ! nat j"

text \<open>
  The flow that enters node \<open>k\<close> from the other nodes, and the flow that leaves it for the
  other nodes, in a flow matrix of \<open>n\<close> nodes that holds the negated flow on the reverse
  entry: the positive entries of column \<open>k\<close>, respectively of row \<open>k\<close>.
\<close>

definition flow_into :: "matrix \<Rightarrow> nat \<Rightarrow> int \<Rightarrow> int" where
  "flow_into fm n k =
     sum_list (map (\<lambda>i. max 0 (ent fm i k)) (filter (\<lambda>i. i \<noteq> k) (range n)))"

definition flow_out_of :: "matrix \<Rightarrow> nat \<Rightarrow> int \<Rightarrow> int" where
  "flow_out_of fm n k =
     sum_list (map (\<lambda>j. max 0 (ent fm k j)) (filter (\<lambda>j. j \<noteq> k) (range n)))"

text \<open>The fields of a warehouse record, in the order of the dict literal.\<close>

definition fields :: "utilization \<Rightarrow> int list" where
  "fields r =
     [inflow r, outflow r, in_capacity r, out_capacity r, in_utilization r, out_utilization r]"

text \<open>
  A node index in range, the residual capacity of an edge, and the visited flag of a node.
\<close>

definition node :: "nat \<Rightarrow> int \<Rightarrow> bool" where
  "node n v = (0 \<le> v \<and> v < int n)"

definition residual :: "matrix \<Rightarrow> matrix \<Rightarrow> int \<Rightarrow> int \<Rightarrow> int" where
  "residual c f u v = ent c u v - ent f u v"

definition seen :: "bool list \<Rightarrow> int \<Rightarrow> bool" where
  "seen visited v = visited ! nat v"

text \<open>A walk in the residual network: every node in range, every step on an edge of
  positive residual capacity.\<close>

fun rwalk :: "matrix \<Rightarrow> matrix \<Rightarrow> nat \<Rightarrow> int list \<Rightarrow> bool" where
  "rwalk c f n [] = False"
| "rwalk c f n [v] = node n v"
| "rwalk c f n (u # v # p) = (node n u \<and> 0 < residual c f u v \<and> rwalk c f n (v # p))"

text \<open>
  The invariants of the search, with the depth \<open>d\<close> of every visited node as a ghost
  value: the parent entries of visited nodes form a tree of residual edges rooted at the
  source (\<open>bfs_tree\<close>); while the neighbours of \<open>cur\<close> are scanned, of which those
  in \<open>D\<close> are done, the queue is sorted by depth, holds depths between that of \<open>cur\<close>
  and one more, and every visited node that is neither queued nor \<open>cur\<close> has all its
  residual neighbours visited (\<open>bfs_inner\<close>); \<open>bfs_outer\<close> is the same at the head of
  the \<open>while\<close> loop.
\<close>

definition bfs_tree ::
  "matrix \<Rightarrow> matrix \<Rightarrow> nat \<Rightarrow> int \<Rightarrow> (int \<Rightarrow> nat) \<Rightarrow> int list \<Rightarrow> bool list \<Rightarrow> bool" where
  "bfs_tree c f n s d par visited =
     (length par = n \<and> length visited = n \<and> node n s \<and> seen visited s \<and> d s = 0 \<and>
      (\<forall>v. node n v \<longrightarrow> seen visited v \<longrightarrow> v \<noteq> s \<longrightarrow>
           node n (par ! nat v) \<and> seen visited (par ! nat v)
         \<and> 0 < residual c f (par ! nat v) v \<and> d v = Suc (d (par ! nat v))))"

definition closed_at ::
  "matrix \<Rightarrow> matrix \<Rightarrow> nat \<Rightarrow> (int \<Rightarrow> nat) \<Rightarrow> bool list \<Rightarrow> int \<Rightarrow> bool" where
  "closed_at c f n d visited u =
     (\<forall>v. node n v \<longrightarrow> 0 < residual c f u v \<longrightarrow> seen visited v \<and> d v \<le> Suc (d u))"

definition bfs_inner ::
  "matrix \<Rightarrow> matrix \<Rightarrow> nat \<Rightarrow> (int \<Rightarrow> nat) \<Rightarrow> int \<Rightarrow> int set \<Rightarrow> bool list \<Rightarrow> int list \<Rightarrow> bool"
  where
  "bfs_inner c f n d cur D visited q =
     (node n cur \<and> seen visited cur \<and>
      (\<forall>x \<in> set q. node n x \<and> seen visited x \<and> d cur \<le> d x) \<and>
      sorted (map d q) \<and>
      (\<forall>u. node n u \<longrightarrow> seen visited u \<longrightarrow> d u \<le> Suc (d cur)) \<and>
      (\<forall>u. node n u \<longrightarrow> seen visited u \<longrightarrow> u \<notin> set q \<longrightarrow> u \<noteq> cur \<longrightarrow> closed_at c f n d visited u) \<and>
      (\<forall>v \<in> D. node n v \<longrightarrow> 0 < residual c f cur v \<longrightarrow> seen visited v \<and> d v \<le> Suc (d cur)))"

definition bfs_outer ::
  "matrix \<Rightarrow> matrix \<Rightarrow> nat \<Rightarrow> (int \<Rightarrow> nat) \<Rightarrow> bool list \<Rightarrow> int list \<Rightarrow> bool" where
  "bfs_outer c f n d visited q =
     ((\<forall>x \<in> set q. node n x \<and> seen visited x) \<and>
      sorted (map d q) \<and>
      (\<forall>u. node n u \<longrightarrow> seen visited u \<longrightarrow> (\<forall>x \<in> set q. d u \<le> Suc (d x))) \<and>
      (\<forall>u. node n u \<longrightarrow> seen visited u \<longrightarrow> u \<notin> set q \<longrightarrow> closed_at c f n d visited u))"

text \<open>What \<open>bfs\<close> has established when it returns True, and when it returns False.\<close>

definition bfs_found :: "matrix \<Rightarrow> matrix \<Rightarrow> nat \<Rightarrow> int \<Rightarrow> int \<Rightarrow> int list \<Rightarrow> bool" where
  "bfs_found c f n s t par =
     (\<exists>d visited. bfs_tree c f n s d par visited \<and> seen visited t \<and>
        (\<forall>p. rwalk c f n p \<longrightarrow> hd p = s \<longrightarrow> last p = t \<longrightarrow> d t < length p))"

definition bfs_done :: "matrix \<Rightarrow> matrix \<Rightarrow> nat \<Rightarrow> int \<Rightarrow> int \<Rightarrow> int list \<Rightarrow> bool" where
  "bfs_done c f n s t par =
     (\<exists>d visited. bfs_tree c f n s d par visited \<and> \<not> seen visited t \<and>
        (\<forall>u. node n u \<longrightarrow> seen visited u \<longrightarrow> closed_at c f n d visited u))"

definition scan_post ::
  "matrix \<Rightarrow> matrix \<Rightarrow> nat \<Rightarrow> int \<Rightarrow> int \<Rightarrow> int \<Rightarrow> int set \<Rightarrow> error + scan \<Rightarrow> bool" where
  "scan_post c f n s t cur D r =
     (case r of Inl e \<Rightarrow> False
      | Inr (Found par) \<Rightarrow> bfs_found c f n s t par
      | Inr (Scanned par visited q) \<Rightarrow>
          (\<exists>d. bfs_tree c f n s d par visited \<and> bfs_inner c f n d cur D visited q
                \<and> \<not> seen visited t))"

text \<open>The walk \<open>edmonds_karp\<close> makes from a node back to the source along \<open>parent\<close>.\<close>

fun is_walk :: "int list \<Rightarrow> nat \<Rightarrow> int \<Rightarrow> int list \<Rightarrow> bool" where
  "is_walk par n s [] = False"
| "is_walk par n s [v] = (v = s \<and> node n v)"
| "is_walk par n s (v # u # ws) =
     (v \<noteq> s \<and> node n v \<and> par ! nat v = u \<and> is_walk par n s (u # ws))"

text \<open>
  An augmenting path with the fewest edges: a walk from source to sink in the residual
  network, without repeated nodes, no longer than any other such walk.
\<close>

definition shortest_aug :: "matrix \<Rightarrow> matrix \<Rightarrow> nat \<Rightarrow> int \<Rightarrow> int \<Rightarrow> int list \<Rightarrow> bool" where
  "shortest_aug c f n s t p =
     (rwalk c f n p \<and> hd p = s \<and> last p = t \<and> distinct p \<and>
      (\<forall>q. rwalk c f n q \<longrightarrow> hd q = s \<longrightarrow> last q = t \<longrightarrow> length p \<le> length q))"

text \<open>When the search fails, the visited nodes form a cut without residual capacity.\<close>

definition saturated_cut :: "matrix \<Rightarrow> matrix \<Rightarrow> nat \<Rightarrow> int \<Rightarrow> int \<Rightarrow> int set \<Rightarrow> bool" where
  "saturated_cut c f n s t S =
     (S \<subseteq> {v. node n v} \<and> s \<in> S \<and> t \<notin> S \<and>
      (\<forall>u \<in> S. \<forall>v. node n v \<longrightarrow> v \<notin> S \<longrightarrow> residual c f u v \<le> 0))"

text \<open>The edges of a walk that runs against \<open>parent\<close>, each as (tail, head).\<close>

fun walk_edges :: "int list \<Rightarrow> (int \<times> int) list" where
  "walk_edges (v # u # ws) = (u, v) # walk_edges (u # ws)"
| "walk_edges ws = []"

text \<open>
  The bottleneck accumulated along such a walk, and the flow matrix after pushing \<open>pf\<close>
  along it: \<open>bump m i j x\<close> adds \<open>x\<close> to the entry \<open>(i, j)\<close>.
\<close>

fun walk_min :: "matrix \<Rightarrow> matrix \<Rightarrow> int option \<Rightarrow> int list \<Rightarrow> int option" where
  "walk_min c f pf (v # u # ws) = walk_min c f (py_min pf (residual c f u v)) (u # ws)"
| "walk_min c f pf ws = pf"

definition bump :: "matrix \<Rightarrow> int \<Rightarrow> int \<Rightarrow> int \<Rightarrow> matrix" where
  "bump m i j x = m[nat i := (m ! nat i)[nat j := m ! nat i ! nat j + x]]"

fun push_walk :: "matrix \<Rightarrow> int \<Rightarrow> int list \<Rightarrow> matrix" where
  "push_walk m pf (v # u # ws) = push_walk (bump (bump m u v pf) v u (- pf)) pf (u # ws)"
| "push_walk m pf ws = m"

text \<open>
  Antisymmetry of a flow matrix, the capacity bound, and the net flow out of a node.
\<close>

definition antisym :: "nat \<Rightarrow> matrix \<Rightarrow> bool" where
  "antisym n m = (\<forall>a b. node n a \<longrightarrow> node n b \<longrightarrow> ent m a b = - ent m b a)"

definition within :: "matrix \<Rightarrow> nat \<Rightarrow> matrix \<Rightarrow> bool" where
  "within c n m = (\<forall>a b. node n a \<longrightarrow> node n b \<longrightarrow> ent m a b \<le> ent c a b)"

definition rowsum :: "matrix \<Rightarrow> nat \<Rightarrow> int \<Rightarrow> int" where
  "rowsum m n a = (\<Sum>b \<in> {0..<int n}. ent m a b)"

text \<open>
  Valid input of the solver: a square matrix of non-negative capacities, source and sink
  in range and different.
\<close>

definition valid_input :: "matrix \<Rightarrow> int \<Rightarrow> int \<Rightarrow> bool" where
  "valid_input c s t =
     (dims (length c) c \<and> list_all (list_all (\<lambda>x. 0 \<le> x)) c
      \<and> node (length c) s \<and> node (length c) t \<and> s \<noteq> t)"

text \<open>
  The invariant of the \<open>while\<close> loop: the flow matrix is square, stays below the
  capacities, is antisymmetric and conserves flow at every node but source and sink;
  \<open>max_flow\<close> is the net flow out of the source and the sum of the recorded bottlenecks,
  each of which is at least 1.
\<close>

definition ek_inv :: "matrix \<Rightarrow> int \<Rightarrow> int \<Rightarrow> ek_state \<Rightarrow> bool" where
  "ek_inv c s t st =
     (let n = length c; fm = flow_matrix st in
      dims n fm \<and> length (parent st) = n \<and> within c n fm \<and> antisym n fm
      \<and> (\<forall>a. node n a \<longrightarrow> a \<noteq> s \<longrightarrow> a \<noteq> t \<longrightarrow> rowsum fm n a = 0)
      \<and> max_flow st = rowsum fm n s
      \<and> max_flow st = sum_list (map flow (path_history st))
      \<and> (\<forall>e \<in> set (path_history st). 1 \<le> flow e))"

text \<open>What one pass of the loop with a successful search does to the state.\<close>

definition augments ::
  "matrix \<Rightarrow> int \<Rightarrow> int \<Rightarrow> ek_state \<Rightarrow> ek_state \<Rightarrow> int list \<Rightarrow> int \<Rightarrow> bool" where
  "augments c s t st st' ws pf =
     (is_walk (parent st') (length c) s ws \<and> hd ws = t
      \<and> shortest_aug c (flow_matrix st) (length c) s t (rev ws)
      \<and> walk_min c (flow_matrix st) None ws = Some pf \<and> 1 \<le> pf
      \<and> flow_matrix st' = push_walk (flow_matrix st) pf ws
      \<and> max_flow st' = max_flow st + pf
      \<and> path_history st' = path_history st @ [\<lparr>path = rev ws, flow = pf\<rparr>])"

text \<open>The states the loop of \<open>edmonds_karp\<close> passes through.\<close>

inductive ek_reachable :: "matrix \<Rightarrow> int \<Rightarrow> int \<Rightarrow> ek_state \<Rightarrow> bool" for c s t where
  init: "ek_reachable c s t (ek_init c)"
| step: "ek_reachable c s t st \<Longrightarrow> ek_iteration c s t st = Some (Inr (Some st'))
         \<Longrightarrow> ek_reachable c s t st'"

text \<open>
  An augmenting path: a walk from the source to the sink in the residual network of the
  flow \<open>f\<close>.  The bottleneck of a path is the least residual capacity of its edges.
\<close>

definition path_edges :: "int list \<Rightarrow> (int \<times> int) list" where
  "path_edges p = zip p (tl p)"

definition bottleneck :: "matrix \<Rightarrow> matrix \<Rightarrow> int list \<Rightarrow> int" where
  "bottleneck c f p = Min ((\<lambda>e. residual c f (fst e) (snd e)) ` set (path_edges p))"

definition augmenting :: "matrix \<Rightarrow> matrix \<Rightarrow> int \<Rightarrow> int \<Rightarrow> int list \<Rightarrow> bool" where
  "augmenting c f s t p = (rwalk c f (length c) p \<and> hd p = s \<and> last p = t)"

text \<open>
  A cut separating source and sink and its capacity; a flow in the usual sense (between
  0 and the capacity on every edge, conserved at every inner node) and its value.
\<close>

definition is_cut :: "nat \<Rightarrow> int \<Rightarrow> int \<Rightarrow> int set \<Rightarrow> bool" where
  "is_cut n s t S = (S \<subseteq> {0..<int n} \<and> s \<in> S \<and> t \<notin> S)"

definition cut_capacity :: "matrix \<Rightarrow> nat \<Rightarrow> int set \<Rightarrow> int" where
  "cut_capacity c n S = (\<Sum>u \<in> S. \<Sum>v \<in> {0..<int n} - S. ent c u v)"

definition feasible_flow :: "matrix \<Rightarrow> int \<Rightarrow> int \<Rightarrow> (int \<Rightarrow> int \<Rightarrow> int) \<Rightarrow> bool" where
  "feasible_flow c s t g =
     ((\<forall>u v. node (length c) u \<longrightarrow> node (length c) v \<longrightarrow> 0 \<le> g u v \<and> g u v \<le> ent c u v)
      \<and> (\<forall>v. node (length c) v \<longrightarrow> v \<noteq> s \<longrightarrow> v \<noteq> t
            \<longrightarrow> (\<Sum>u \<in> {0..<int (length c)}. g u v) = (\<Sum>u \<in> {0..<int (length c)}. g v u)))"

definition flow_value :: "matrix \<Rightarrow> int \<Rightarrow> (int \<Rightarrow> int \<Rightarrow> int) \<Rightarrow> int" where
  "flow_value c s g =
     (\<Sum>v \<in> {0..<int (length c)}. g s v) - (\<Sum>v \<in> {0..<int (length c)}. g v s)"

text \<open>
  Inputs on which the theorems are exercised: a single edge, the edge reversed, and the
  diamond of four nodes with the state after its first augmentation.
\<close>

definition single_edge :: matrix where
  "single_edge = [[0, 1], [0, 0]]"

definition single_edge_step :: ek_state where
  "single_edge_step =
     \<lparr>flow_matrix = [[0, 1], [- 1, 0]], parent = [- 1, 0], max_flow = 1,
      path_history = [\<lparr>path = [0, 1], flow = 1\<rparr>]\<rparr>"

definition back_edge :: matrix where
  "back_edge = [[0, 0], [1, 0]]"

definition diamond :: matrix where
  "diamond = [[0, 10, 5, 0], [0, 0, 0, 5], [0, 0, 0, 10], [0, 0, 0, 0]]"

definition diamond_step :: ek_state where
  "diamond_step =
     \<lparr>flow_matrix = [[0, 5, 0, 0], [- 5, 0, 0, 5], [0, 0, 0, 0], [0, - 5, 0, 0]],
      parent = [- 1, 0, 0, 1], max_flow = 5,
      path_history = [\<lparr>path = [0, 1, 3], flow = 5\<rparr>]\<rparr>"

section \<open>Termination of the breadth-first search\<close>

lemma py_set_length: "py_set xs i v = Inr ys \<Longrightarrow> length ys = length xs"
  by (auto simp: py_set_def split: sum.splits)

lemma unvisited_update:
  "k < length vs \<Longrightarrow> \<not> vs ! k \<Longrightarrow> Suc (unvisited (vs[k := True])) = unvisited vs"
proof (induction vs arbitrary: k)
  case Nil
  then show ?case by simp
next
  case (Cons v vs)
  show ?case
  proof (cases k)
    case 0
    with Cons.prems show ?thesis by (simp add: unvisited_def)
  next
    case (Suc j)
    with Cons.prems have "Suc (unvisited (vs[j := True])) = unvisited vs"
      by (intro Cons.IH) simp_all
    with Suc show ?thesis by (simp add: unvisited_def)
  qed
qed

lemma unvisited_mark:
  assumes "py_get visited i = Inr False" and "py_set visited i True = Inr visited'"
  shows "Suc (unvisited visited') = unvisited visited"
proof -
  from assms obtain k where k: "py_index visited i = Inr k" "\<not> visited ! k"
    "visited' = visited[k := True]"
    by (auto simp: py_get_def py_set_def split: sum.splits)
  from k(1) have "k < length visited"
    by (auto simp: py_index_def Let_def split: if_splits)
  with k show ?thesis by (simp add: unvisited_update)
qed

lemma bfs_neighbors_measure:
  "bfs_neighbors c f sink cur nbs par visited queue = Inr (Scanned par' visited' queue')
   \<Longrightarrow> unvisited visited' + length queue' = unvisited visited + length queue"
proof (induction nbs arbitrary: par visited queue)
  case Nil
  then show ?case by simp
next
  case (Cons nb nbs)
  then show ?case
    by (auto split: sum.splits if_splits dest!: unvisited_mark[rotated] simp del: Not_eq_iff)
qed

termination bfs_loop
  by (relation "measure (\<lambda>(c, f, sink, n, par, visited, queue). unvisited visited + length queue)")
     (auto dest: bfs_neighbors_measure)

section \<open>Facts about indexing and loops\<close>




lemma py_index_nonneg: "0 \<le> i \<Longrightarrow> i < int (length xs) \<Longrightarrow> py_index xs i = Inr (nat i)"
  by (simp add: py_index_def)

lemma py_get_nonneg: "0 \<le> i \<Longrightarrow> i < int (length xs) \<Longrightarrow> py_get xs i = Inr (xs ! nat i)"
  by (simp add: py_get_def py_index_nonneg)

lemma py_set_nonneg:
  "0 \<le> i \<Longrightarrow> i < int (length xs) \<Longrightarrow> py_set xs i v = Inr (xs[nat i := v])"
  by (simp add: py_set_def py_index_nonneg)

lemma dims_zeros: "dims k (zeros k)"
  by (simp add: dims_def zeros_def list_all_iff)

lemma dims_row: "dims n m \<Longrightarrow> k < n \<Longrightarrow> length (m ! k) = n"
  by (simp add: dims_def list_all_length)

lemma mget_dims:
  "dims n m \<Longrightarrow> 0 \<le> i \<Longrightarrow> i < int n \<Longrightarrow> 0 \<le> j \<Longrightarrow> j < int n \<Longrightarrow> mget m i j = Inr (ent m i j)"
  by (simp add: mget_def py_get_nonneg dims_def ent_def list_all_length)


lemma set_range: "set (range n) = {0..<int n}"
  by (simp add: range_def image_int_atLeastLessThan)



section \<open>Properties of the super-node augmentation\<close>

text \<open>
  C7, as the code has it.  In the matrix built by \<open>main\<close> every edge from the super-source
  to a terminal and from a store to the super-sink has capacity 100, which is at least the
  total outgoing capacity of that terminal, respectively the total incoming capacity of
  that store; the original entries are copied unchanged.
\<close>

theorem main_synthetic_edges:
  "(case build_logistics_network of Inl e \<Rightarrow> False
    | Inr (nodes, node_indices, c) \<Rightarrow>
   (case main_extended_capacity of Inl e \<Rightarrow> False
    | Inr ext \<Rightarrow>
        list_all (\<lambda>t. case node_indices t of None \<Rightarrow> False
                   | Some i \<Rightarrow> mget ext (int (length nodes)) i = Inr 100
                               \<and> out_capacity_of c i \<le> 100) terminals
      \<and> list_all (\<lambda>s. case node_indices s of None \<Rightarrow> False
                   | Some i \<Rightarrow> mget ext i (int (length nodes) + 1) = Inr 100
                               \<and> in_capacity_of c i \<le> 100) stores
      \<and> map (take (length nodes)) (take (length nodes) ext) = c))"
  by code_simp

text \<open>
  C7 as stated fails: the two terminals have the indices 0 and 1 among the 20 nodes, the
  edge from the super-source (index 20) to the first terminal has capacity 100, and the
  edges leaving the two terminals have capacity 115 in total, so the synthetic capacity
  does not exceed that sum.
\<close>

theorem synthetic_capacity_below_terminal_total:
  "index_dict (terminals @ warehouses @ stores) ''Terminal 1'' = Some 0
   \<and> index_dict (terminals @ warehouses @ stores) ''Terminal 2'' = Some 1
   \<and> length network_capacity = 20
   \<and> mget extended_capacity 20 0 = Inr 100
   \<and> out_capacity_of network_capacity 0 + out_capacity_of network_capacity 1 = 115"
  by code_simp

subsection \<open>Failure of the augmentation\<close>











section \<open>Properties of the diagnostics\<close>

text \<open>
  The floating-point expression at some arguments: 23 / 40 * 100 is a double just below
  57.5, a quotient that is too large raises, and so does a product that is.
\<close>

lemma percent_values:
  "percent 0 25 = Inr 0"
  "percent 23 40 = Inr 57"
  "percent 2 3 = Inr 67"
  "percent 1 200 = Inr 0"
  "percent 3 200 = Inr 2"
  "percent (- 25) 45 = Inr (- 56)"
  "percent (10 ^ 400) 1 = Inl OverflowError"
  "percent (2 ^ 1020) 1 = Inl OverflowError"
  by code_simp+

text \<open>
  C10.  On the run of the program the record of every warehouse has inflow 0, outflow 0
  and both utilizations 0, while 25, 30, 30 and 30 units enter the four warehouses, and
  leave them, in the flow that the solver returned.  \<open>analyze_network\<close> adds up all the
  entries of the warehouse's column and row, and the solver's matrix holds the negated
  flow on the reverse entry, so the flow that leaves the warehouse cancels the flow that
  enters it.  The capacity sums of the records are those of the network.
\<close>

theorem main_warehouse_records:
  "(case main_solution of
      Some (Inr (nodes, node_indices, capacity_matrix, original_flow_matrix, ph)) \<Rightarrow>
        (case analyze_network capacity_matrix original_flow_matrix nodes node_indices ph of
           Inl e \<Rightarrow> False
         | Inr a \<Rightarrow>
             map (\<lambda>w. map_option fields (warehouse_utilization a w)) warehouses
               = [Some [0, 0, 25, 45, 0, 0], Some [0, 0, 30, 50, 0, 0],
                  Some [0, 0, 30, 45, 0, 0], Some [0, 0, 30, 60, 0, 0]]
           \<and> map node_indices warehouses = [Some 2, Some 3, Some 4, Some 5]
           \<and> map (flow_into original_flow_matrix (length nodes)) [2, 3, 4, 5]
               = [25, 30, 30, 30]
           \<and> map (flow_out_of original_flow_matrix (length nodes)) [2, 3, 4, 5]
               = [25, 30, 30, 30])
    | _ \<Rightarrow> False)"
  by code_simp

section \<open>Correctness of the breadth-first search\<close>

lemma node_nat_eq: "node n a \<Longrightarrow> node n b \<Longrightarrow> (nat a = nat b) = (a = b)"
  by (auto simp: node_def)

lemma node_nat_less: "node n a \<Longrightarrow> nat a < n"
  by (auto simp: node_def)

lemma py_get_node: "node n v \<Longrightarrow> length xs = n \<Longrightarrow> py_get xs v = Inr (xs ! nat v)"
  by (simp add: node_def py_get_nonneg)

lemma py_set_node: "node n v \<Longrightarrow> length xs = n \<Longrightarrow> py_set xs v x = Inr (xs[nat v := x])"
  by (simp add: node_def py_set_nonneg)

lemma mget_node: "dims n m \<Longrightarrow> node n u \<Longrightarrow> node n v \<Longrightarrow> mget m u v = Inr (ent m u v)"
  by (simp add: node_def mget_dims)

lemma seen_mark:
  "node n a \<Longrightarrow> node n b \<Longrightarrow> length visited = n
   \<Longrightarrow> seen (visited[nat a := True]) b = (b = a \<or> seen visited b)"
  by (auto simp: seen_def nth_list_update node_nat_eq node_nat_less)

lemma par_update:
  "node n a \<Longrightarrow> node n b \<Longrightarrow> length par = n
   \<Longrightarrow> par[nat a := x] ! nat b = (if b = a then x else par ! nat b)"
  by (auto simp: nth_list_update node_nat_eq node_nat_less)

text \<open>Walks from the source that are short enough end in a visited node.\<close>

lemma rwalk_snoc:
  "rwalk c f n (p @ [v]) = (if p = [] then node n v
                            else rwalk c f n p \<and> 0 < residual c f (last p) v \<and> node n v)"
  by (induction c f n p rule: rwalk.induct) auto

lemma rwalk_nodes: "rwalk c f n p \<Longrightarrow> x \<in> set p \<Longrightarrow> node n x"
  by (induction c f n p rule: rwalk.induct) auto

lemma short_walk_seen:
  assumes tree: "bfs_tree c f n s d par visited"
    and inner: "bfs_inner c f n d cur D visited q"
  shows "rwalk c f n p \<Longrightarrow> hd p = s \<Longrightarrow> length p \<le> Suc (d cur)
         \<Longrightarrow> seen visited (last p) \<and> Suc (d (last p)) \<le> length p"
proof (induction p rule: rev_induct)
  case Nil
  then show ?case by simp
next
  case (snoc v p)
  show ?case
  proof (cases "p = []")
    case True
    with snoc.prems tree show ?thesis by (simp add: bfs_tree_def)
  next
    case False
    with snoc.prems have w: "rwalk c f n p" "0 < residual c f (last p) v" "node n v"
      and h: "hd p = s" and l: "length p \<le> d cur"
      by (simp_all add: rwalk_snoc)
    from snoc.IH[OF w(1) h] l have u: "seen visited (last p)" "Suc (d (last p)) \<le> length p"
      by simp_all
    have nu: "node n (last p)" using w(1) False by (simp add: rwalk_nodes)
    from u(2) l have lt: "d (last p) < d cur" by simp
    then have "last p \<noteq> cur" by auto
    moreover have "last p \<notin> set q"
      using inner lt by (auto simp: bfs_inner_def)
    ultimately have "closed_at c f n d visited (last p)"
      using inner nu u(1) by (simp add: bfs_inner_def)
    with w(2,3) have "seen visited v" "d v \<le> Suc (d (last p))"
      by (simp_all add: closed_at_def)
    with u(2) show ?thesis by simp
  qed
qed

lemma tree_mark:
  assumes "bfs_tree c f n s d par visited"
    and "node n nb" and "\<not> seen visited nb"
    and "node n cur" and "seen visited cur" and "0 < residual c f cur nb"
  shows "bfs_tree c f n s (d(nb := Suc (d cur))) (par[nat nb := cur]) (visited[nat nb := True])"
proof -
  from assms(1) have len: "length par = n" "length visited = n" and s: "node n s" "seen visited s"
    "d s = 0"
    and step: "\<And>v. node n v \<Longrightarrow> seen visited v \<Longrightarrow> v \<noteq> s \<Longrightarrow>
           node n (par ! nat v) \<and> seen visited (par ! nat v)
         \<and> 0 < residual c f (par ! nat v) v \<and> d v = Suc (d (par ! nat v))"
    by (simp_all add: bfs_tree_def)
  have ne: "s \<noteq> nb" "cur \<noteq> nb" using assms(3,5) s(2) by auto
  show ?thesis
    unfolding bfs_tree_def
  proof (intro conjI allI impI)
    show "length (par[nat nb := cur]) = n" "length (visited[nat nb := True]) = n"
      by (simp_all add: len)
    show "node n s" by (rule s)
    show "seen (visited[nat nb := True]) s"
      by (simp add: seen_mark[OF assms(2) s(1) len(2)] s(2))
    show "(d(nb := Suc (d cur))) s = 0" using ne s(3) by simp
  next
    fix v assume v: "node n v" "seen (visited[nat nb := True]) v" "v \<noteq> s"
    let ?u = "par[nat nb := cur] ! nat v"
    have u: "?u = (if v = nb then cur else par ! nat v)"
      by (rule par_update[OF assms(2) v(1) len(1)])
    have old: "node n (par ! nat v) \<and> seen visited (par ! nat v)
         \<and> 0 < residual c f (par ! nat v) v \<and> d v = Suc (d (par ! nat v))" if "v \<noteq> nb"
      using that v step[of v] by (simp add: seen_mark[OF assms(2) v(1) len(2)])
    have nu: "node n ?u" using u old assms(4) by auto
    show "node n ?u" by (rule nu)
    have su: "seen visited ?u" using u old assms(5) by auto
    then show "seen (visited[nat nb := True]) ?u"
      by (simp add: seen_mark[OF assms(2) nu len(2)])
    show "0 < residual c f ?u v" using u old assms(6) by auto
    have "?u \<noteq> nb" using su assms(3) by auto
    then show "(d(nb := Suc (d cur))) v = Suc ((d(nb := Suc (d cur))) ?u)"
      using u old by auto
  qed
qed

lemma inner_skip:
  assumes "bfs_inner c f n d cur D visited q"
    and "node n nb" and "seen visited nb \<or> \<not> 0 < residual c f cur nb"
  shows "bfs_inner c f n d cur (insert nb D) visited q"
proof -
  from assms(1) have bound: "\<And>u. node n u \<Longrightarrow> seen visited u \<Longrightarrow> d u \<le> Suc (d cur)"
    and scanned: "\<And>v. v \<in> D \<Longrightarrow> node n v \<Longrightarrow> 0 < residual c f cur v
                   \<Longrightarrow> seen visited v \<and> d v \<le> Suc (d cur)"
    by (simp_all add: bfs_inner_def)
  have "seen visited v \<and> d v \<le> Suc (d cur)"
    if "v \<in> insert nb D" "node n v" "0 < residual c f cur v" for v
  proof (cases "v = nb")
    case True
    with assms(3) that have "seen visited v" by simp
    with bound[OF that(2)] show ?thesis by simp
  next
    case False
    with that scanned show ?thesis by simp
  qed
  with assms(1) show ?thesis by (simp add: bfs_inner_def)
qed

lemma inner_mark:
  assumes len: "length visited = n"
    and inner: "bfs_inner c f n d cur D visited q"
    and nb: "node n nb" "\<not> seen visited nb"
  shows "bfs_inner c f n (d(nb := Suc (d cur))) cur (insert nb D)
           (visited[nat nb := True]) (q @ [nb])"
proof -
  let ?d = "d(nb := Suc (d cur))" and ?v = "visited[nat nb := True]"
  have sm: "seen ?v x = (x = nb \<or> seen visited x)" if "node n x" for x
    by (rule seen_mark[OF nb(1) that len])
  from inner have cur: "node n cur" "seen visited cur"
    and q: "\<And>x. x \<in> set q \<Longrightarrow> node n x \<and> seen visited x \<and> d cur \<le> d x"
    and sorted: "sorted (map d q)"
    and bound: "\<And>u. node n u \<Longrightarrow> seen visited u \<Longrightarrow> d u \<le> Suc (d cur)"
    and closed: "\<And>u. node n u \<Longrightarrow> seen visited u \<Longrightarrow> u \<notin> set q \<Longrightarrow> u \<noteq> cur
                   \<Longrightarrow> closed_at c f n d visited u"
    and scanned: "\<And>v. v \<in> D \<Longrightarrow> node n v \<Longrightarrow> 0 < residual c f cur v
                   \<Longrightarrow> seen visited v \<and> d v \<le> Suc (d cur)"
    by (simp_all add: bfs_inner_def)
  have cne: "cur \<noteq> nb" using cur(2) nb(2) by auto
  have dq: "?d x = d x" if "x \<in> set q" for x using q[OF that] nb(2) by auto
  have mq: "map ?d q = map d q" by (rule map_cong[OF refl]) (rule dq)
  show ?thesis
    unfolding bfs_inner_def
  proof (intro conjI ballI allI impI)
    show "node n cur" by (rule cur)
    show "seen ?v cur" by (simp add: sm cur)
  next
    fix x assume "x \<in> set (q @ [nb])"
    then consider "x \<in> set q" | "x = nb" by auto
    then have "node n x \<and> seen ?v x \<and> ?d cur \<le> ?d x"
    proof cases
      case 1
      from q[OF 1] have x: "node n x" "seen visited x" "d cur \<le> d x" by simp_all
      then have "x \<noteq> nb" using nb(2) by auto
      with x cne show ?thesis by (simp add: sm)
    next
      case 2
      with nb(1) cne show ?thesis by (simp add: sm)
    qed
    then show "node n x" "seen ?v x" "?d cur \<le> ?d x" by simp_all
  next
    have "\<forall>x \<in> set q. d x \<le> Suc (d cur)" using q bound by blast
    then show "sorted (map ?d (q @ [nb]))"
      using sorted by (simp add: mq sorted_append)
  next
    fix u assume u: "node n u" "seen ?v u"
    show "?d u \<le> Suc (?d cur)"
    proof (cases "u = nb")
      case True
      with cne show ?thesis by simp
    next
      case False
      with u have "seen visited u" by (simp add: sm)
      from bound[OF u(1) this] False cne show ?thesis by simp
    qed
  next
    fix u assume u: "node n u" "seen ?v u" "u \<notin> set (q @ [nb])" "u \<noteq> cur"
    then have old: "seen visited u" "u \<noteq> nb" "u \<notin> set q" by (simp_all add: sm)
    from closed[OF u(1) old(1,3) u(4)] have cl: "closed_at c f n d visited u" .
    show "closed_at c f n ?d ?v u"
      unfolding closed_at_def
    proof (intro allI impI)
      fix v assume v: "node n v" "0 < residual c f u v"
      with cl have sv: "seen visited v" "d v \<le> Suc (d u)" by (simp_all add: closed_at_def)
      then have "v \<noteq> nb" using nb(2) by auto
      with sv old(2) v(1) show "seen ?v v \<and> ?d v \<le> Suc (?d u)" by (simp add: sm)
    qed
  next
    fix v assume v: "v \<in> insert nb D" "node n v" "0 < residual c f cur v"
    have "seen ?v v \<and> ?d v \<le> Suc (?d cur)"
    proof (cases "v = nb")
      case True
      with cne nb(1) show ?thesis by (simp add: sm)
    next
      case False
      with v have "v \<in> D" by simp
      from scanned[OF this v(2,3)] False cne v(2) show ?thesis by (simp add: sm)
    qed
    then show "seen ?v v" "?d v \<le> Suc (?d cur)" by simp_all
  qed
qed

lemma bfs_neighbors_step:
  assumes "dims n c" and "dims n f" and "length par = n" and "length visited = n"
    and "node n cur" and "node n nb"
  shows "bfs_neighbors c f t cur (nb # nbs) par visited q =
     (if \<not> seen visited nb \<and> 0 < residual c f cur nb then
        (if nb = t then Inr (Found (par[nat nb := cur]))
         else bfs_neighbors c f t cur nbs (par[nat nb := cur]) (visited[nat nb := True])
                (q @ [nb]))
      else bfs_neighbors c f t cur nbs par visited q)"
  by (simp add: mget_node[OF assms(1,5,6)] mget_node[OF assms(2,5,6)]
      py_get_node[OF assms(6,4)] py_set_node[OF assms(6,3)] py_set_node[OF assms(6,4)]
      seen_def residual_def)

lemma bfs_neighbors_post:
  assumes c: "dims n c" and f: "dims n f" and t: "node n t"
  shows "bfs_tree c f n s d par visited \<Longrightarrow> bfs_inner c f n d cur D visited q
         \<Longrightarrow> \<not> seen visited t \<Longrightarrow> \<forall>x \<in> set nbs. node n x
         \<Longrightarrow> scan_post c f n s t cur (D \<union> set nbs)
               (bfs_neighbors c f t cur nbs par visited q)"
proof (induction nbs arbitrary: d par visited q D)
  case Nil
  then show ?case by (auto simp: scan_post_def)
next
  case (Cons nb nbs)
  from Cons.prems(1) have len: "length par = n" "length visited = n"
    by (simp_all add: bfs_tree_def)
  from Cons.prems(2) have cur: "node n cur" "seen visited cur"
    by (simp_all add: bfs_inner_def)
  from Cons.prems(4) have nb: "node n nb" and nbs: "\<forall>x \<in> set nbs. node n x" by simp_all
  have un: "D \<union> set (nb # nbs) = insert nb D \<union> set nbs" by simp
  note step = bfs_neighbors_step[OF c f len cur(1) nb]
  show ?case
  proof (cases "\<not> seen visited nb \<and> 0 < residual c f cur nb")
    case False
    then have inner': "bfs_inner c f n d cur (insert nb D) visited q"
      using Cons.prems(2) nb by (intro inner_skip) auto
    have eq: "bfs_neighbors c f t cur (nb # nbs) par visited q
        = bfs_neighbors c f t cur nbs par visited q"
      by (subst step) (use False in auto)
    show ?thesis
      using Cons.IH[OF Cons.prems(1) inner' Cons.prems(3) nbs] by (simp only: un eq)
  next
    case True
    let ?d = "d(nb := Suc (d cur))"
    let ?par = "par[nat nb := cur]"
    let ?vis = "visited[nat nb := True]"
    have tree': "bfs_tree c f n s ?d ?par ?vis"
      using Cons.prems(1) nb True cur by (intro tree_mark) simp_all
    show ?thesis
    proof (cases "nb = t")
      case eq: True
      have "seen ?vis t" using seen_mark[OF nb t len(2)] eq by simp
      moreover have "?d t < length p" if "rwalk c f n p" "hd p = s" "last p = t" for p
      proof (rule ccontr)
        assume "\<not> ?d t < length p"
        with eq have "length p \<le> Suc (d cur)" by simp
        from short_walk_seen[OF Cons.prems(1,2) that(1,2) this] that(3) Cons.prems(3)
        show False by simp
      qed
      ultimately have "bfs_found c f n s t ?par"
        using tree' unfolding bfs_found_def by blast
      moreover have "bfs_neighbors c f t cur (nb # nbs) par visited q = Inr (Found ?par)"
        by (subst step) (use True eq in auto)
      ultimately show ?thesis by (simp add: scan_post_def)
    next
      case ne: False
      have inner': "bfs_inner c f n ?d cur (insert nb D) ?vis (q @ [nb])"
        using len(2) Cons.prems(2) nb True by (intro inner_mark) simp_all
      have nt: "\<not> seen ?vis t"
        using seen_mark[OF nb t len(2)] ne Cons.prems(3) by auto
      have eq: "bfs_neighbors c f t cur (nb # nbs) par visited q
          = bfs_neighbors c f t cur nbs ?par ?vis (q @ [nb])"
        by (subst step) (use True ne in auto)
      show ?thesis
        using Cons.IH[OF tree' inner' nt nbs] by (simp only: un eq)
    qed
  qed
qed

lemma outer_to_inner:
  assumes "bfs_outer c f n d visited (cur # q)"
  shows "bfs_inner c f n d cur {} visited q"
proof -
  have el: "\<And>x. x \<in> set (cur # q) \<Longrightarrow> node n x \<and> seen visited x"
    using assms unfolding bfs_outer_def by blast
  have sorted: "sorted (map d (cur # q))"
    using assms unfolding bfs_outer_def by blast
  have bound: "\<And>u x. node n u \<Longrightarrow> seen visited u \<Longrightarrow> x \<in> set (cur # q) \<Longrightarrow> d u \<le> Suc (d x)"
    using assms unfolding bfs_outer_def by blast
  have closed: "\<And>u. node n u \<Longrightarrow> seen visited u \<Longrightarrow> u \<notin> set (cur # q)
                   \<Longrightarrow> closed_at c f n d visited u"
    using assms unfolding bfs_outer_def by blast
  show ?thesis
    unfolding bfs_inner_def
  proof (intro conjI ballI allI impI)
    show "node n cur" "seen visited cur" using el[of cur] by simp_all
    show "sorted (map d q)" using sorted by simp
  next
    fix x assume "x \<in> set q"
    then show "node n x" "seen visited x" "d cur \<le> d x" using el[of x] sorted by auto
  next
    fix u assume "node n u" "seen visited u"
    then show "d u \<le> Suc (d cur)" using bound[of u cur] by simp
  next
    fix u assume "node n u" "seen visited u" "u \<notin> set q" "u \<noteq> cur"
    then show "closed_at c f n d visited u" using closed[of u] by simp
  qed simp_all
qed

lemma inner_to_outer:
  assumes "bfs_inner c f n d cur {v. node n v} visited q"
  shows "bfs_outer c f n d visited q"
proof -
  from assms have cur: "node n cur" "seen visited cur"
    and q: "\<And>x. x \<in> set q \<Longrightarrow> node n x \<and> seen visited x \<and> d cur \<le> d x"
    and sorted: "sorted (map d q)"
    and bound: "\<And>u. node n u \<Longrightarrow> seen visited u \<Longrightarrow> d u \<le> Suc (d cur)"
    and closed: "\<And>u. node n u \<Longrightarrow> seen visited u \<Longrightarrow> u \<notin> set q \<Longrightarrow> u \<noteq> cur
                   \<Longrightarrow> closed_at c f n d visited u"
    and scanned: "\<And>v. node n v \<Longrightarrow> 0 < residual c f cur v
                   \<Longrightarrow> seen visited v \<and> d v \<le> Suc (d cur)"
    by (simp_all add: bfs_inner_def)
  have ccur: "closed_at c f n d visited cur"
    unfolding closed_at_def using scanned by blast
  show ?thesis
    unfolding bfs_outer_def
  proof (intro conjI ballI allI impI)
    show "sorted (map d q)" by (rule sorted)
  next
    fix x assume "x \<in> set q"
    then show "node n x" "seen visited x" using q[of x] by simp_all
  next
    fix u x assume "node n u" "seen visited u" "x \<in> set q"
    then show "d u \<le> Suc (d x)" using bound[of u] q[of x] by simp
  next
    fix u assume "node n u" "seen visited u" "u \<notin> set q"
    then show "closed_at c f n d visited u" using closed[of u] ccur by (cases "u = cur") simp_all
  qed
qed

lemma node_range: "{v. node n v} = set (range n)"
  by (auto simp: set_range node_def)

lemma bfs_loop_post:
  assumes c: "dims n c" and f: "dims n f" and t: "node n t"
  shows "bfs_tree c f n s d par visited \<Longrightarrow> bfs_outer c f n d visited q
         \<Longrightarrow> \<not> seen visited t
         \<Longrightarrow> \<exists>b par'. bfs_loop c f t n par visited q = Inr (b, par')
               \<and> (if b then bfs_found c f n s t par' else bfs_done c f n s t par')"
  using assms
proof (induction c f t n par visited q arbitrary: d rule: bfs_loop.induct)
  case (1 c f t n par visited)
  from 1(2) have "\<forall>u. node n u \<longrightarrow> seen visited u \<longrightarrow> closed_at c f n d visited u"
    by (simp add: bfs_outer_def)
  with 1(1,3) have "bfs_done c f n s t par" unfolding bfs_done_def by blast
  then show ?case by (intro exI[of _ False] exI[of _ par]) simp
next
  case (2 c f t n par visited cur q)
  have inner: "bfs_inner c f n d cur {} visited q" using "2.prems"(2) by (rule outer_to_inner)
  have "scan_post c f n s t cur ({} \<union> set (range n))
          (bfs_neighbors c f t cur (range n) par visited q)"
    using "2.prems"(4,5,6,1) inner "2.prems"(3)
    by (rule bfs_neighbors_post) (simp add: node_range[symmetric])
  then have post: "scan_post c f n s t cur {v. node n v}
          (bfs_neighbors c f t cur (range n) par visited q)"
    by (simp add: node_range)
  show ?case
  proof (cases "bfs_neighbors c f t cur (range n) par visited q")
    case (Inl e)
    with post show ?thesis by (simp add: scan_post_def)
  next
    case (Inr r)
    show ?thesis
    proof (cases r)
      case (Found par')
      with post Inr have "bfs_found c f n s t par'" by (simp add: scan_post_def)
      with Inr Found show ?thesis by (intro exI[of _ True] exI[of _ par']) simp
    next
      case (Scanned par' visited' q')
      with post Inr obtain d' where d': "bfs_tree c f n s d' par' visited'"
        "bfs_inner c f n d' cur {v. node n v} visited' q'" "\<not> seen visited' t"
        by (auto simp: scan_post_def)
      from d'(2) have "bfs_outer c f n d' visited' q'" by (rule inner_to_outer)
      from "2.IH"[OF Inr Scanned d'(1) this d'(3) "2.prems"(4,5,6)]
      show ?thesis using Inr Scanned by simp
    qed
  qed
qed

lemma bfs_post:
  assumes c: "dims n c" and f: "dims n f" and par: "length par = n"
    and s: "node n s" and t: "node n t" and st: "s \<noteq> t"
  shows "\<exists>b par'. bfs c f s t par = Inr (b, par')
           \<and> (if b then bfs_found c f n s t par' else bfs_done c f n s t par')"
proof -
  let ?vis = "(replicate n False)[nat s := True]"
  let ?d = "\<lambda>_::int. 0::nat"
  have n: "length c = n" using c by (simp add: dims_def)
  have sv: "seen ?vis v = (v = s)" if "node n v" for v
    using seen_mark[OF s that, of "replicate n False"] that
    by (simp add: seen_def node_nat_less)
  have tree: "bfs_tree c f n s ?d par ?vis"
    unfolding bfs_tree_def using par s by (simp add: sv)
  have outer: "bfs_outer c f n ?d ?vis [s]"
    unfolding bfs_outer_def using s by (simp add: sv)
  have nt: "\<not> seen ?vis t" using st t by (simp add: sv)
  have "bfs c f s t par = bfs_loop c f t n par ?vis [s]"
    by (simp add: bfs_def Let_def n py_set_node[OF s])
  with bfs_loop_post[OF c f t tree outer nt] show ?thesis by simp
qed

lemma is_walk_last: "is_walk par n s ws \<Longrightarrow> last ws = s"
  by (induction par n s ws rule: is_walk.induct) auto

lemma tree_walk:
  assumes tree: "bfs_tree c f n s d par visited"
  shows "node n v \<Longrightarrow> seen visited v
         \<Longrightarrow> \<exists>ws. is_walk par n s ws \<and> hd ws = v \<and> length ws = Suc (d v)
                \<and> rwalk c f n (rev ws) \<and> distinct ws \<and> (\<forall>x \<in> set ws. d x \<le> d v)"
proof (induction "d v" arbitrary: v)
  case 0
  have "v = s"
  proof (rule ccontr)
    assume "v \<noteq> s"
    with tree 0 have "d v = Suc (d (par ! nat v))" by (simp add: bfs_tree_def)
    with 0 show False by simp
  qed
  with 0 show ?case by (intro exI[of _ "[s]"]) simp
next
  case (Suc k)
  have vs: "v \<noteq> s" using tree Suc(2) by (auto simp: bfs_tree_def)
  let ?u = "par ! nat v"
  from tree Suc(3,4) vs have u: "node n ?u" "seen visited ?u" "0 < residual c f ?u v"
    "d v = Suc (d ?u)"
    by (simp_all add: bfs_tree_def)
  from u(4) Suc(2) have "k = d ?u" by simp
  from Suc(1)[OF this u(1,2)] obtain ws where ws: "is_walk par n s ws" "hd ws = ?u"
    "length ws = Suc (d ?u)" "rwalk c f n (rev ws)" "distinct ws" "\<forall>x \<in> set ws. d x \<le> d ?u"
    by blast
  from ws(3) obtain w ws' where wsc: "ws = w # ws'" by (cases ws) auto
  with ws(2) have w: "w = ?u" by simp
  have "is_walk par n s (v # ws)" using ws(1) vs Suc(3) wsc w by simp
  moreover have "rwalk c f n (rev (v # ws))"
  proof -
    have "rev ws \<noteq> []" "last (rev ws) = ?u" using wsc ws(2) by (simp_all add: last_rev)
    then have "rwalk c f n (rev ws @ [v])"
      using ws(4) u(3) Suc(3) by (simp only: rwalk_snoc) simp
    then show ?thesis by simp
  qed
  moreover have "distinct (v # ws)" using ws(5,6) u(4) by auto
  moreover have "\<forall>x \<in> set (v # ws). d x \<le> d v" using ws(6) u(4) by auto
  ultimately show ?case using ws(3) u(4) by (intro exI[of _ "v # ws"]) simp
qed

lemma bfs_found_walk:
  assumes "bfs_found c f n s t par" and "node n t"
  shows "length par = n \<and>
         (\<exists>ws. is_walk par n s ws \<and> hd ws = t \<and> shortest_aug c f n s t (rev ws))"
proof -
  from assms(1) obtain d visited where tree: "bfs_tree c f n s d par visited"
    and t: "seen visited t"
    and short: "\<And>p. rwalk c f n p \<Longrightarrow> hd p = s \<Longrightarrow> last p = t \<Longrightarrow> d t < length p"
    unfolding bfs_found_def by blast
  from tree_walk[OF tree assms(2) t] obtain ws where ws: "is_walk par n s ws" "hd ws = t"
    "length ws = Suc (d t)" "rwalk c f n (rev ws)" "distinct ws"
    by blast
  from ws(3) have ne: "ws \<noteq> []" by auto
  have "shortest_aug c f n s t (rev ws)"
    unfolding shortest_aug_def
    using ws ne short by (auto simp: hd_rev last_rev is_walk_last Suc_le_eq)
  with ws(1,2) tree show ?thesis by (auto simp: bfs_tree_def)
qed

lemma bfs_done_cut:
  assumes "bfs_done c f n s t par"
  shows "length par = n \<and> (\<exists>S. saturated_cut c f n s t S)"
proof -
  from assms obtain d visited where tree: "bfs_tree c f n s d par visited"
    and t: "\<not> seen visited t"
    and closed: "\<And>u. node n u \<Longrightarrow> seen visited u \<Longrightarrow> closed_at c f n d visited u"
    unfolding bfs_done_def by blast
  let ?S = "{v. node n v \<and> seen visited v}"
  have "residual c f u v \<le> 0" if "u \<in> ?S" "node n v" "v \<notin> ?S" for u v
  proof (rule ccontr)
    assume "\<not> residual c f u v \<le> 0"
    with closed[of u] that show False by (auto simp: closed_at_def)
  qed
  then have "saturated_cut c f n s t ?S"
    unfolding saturated_cut_def using tree t by (auto simp: bfs_tree_def)
  with tree show ?thesis by (auto simp: bfs_tree_def)
qed

section \<open>Correctness of the augmenting loop\<close>

lemma is_walk_nodes: "is_walk par n s ws \<Longrightarrow> x \<in> set ws \<Longrightarrow> node n x"
  by (induction par n s ws rule: is_walk.induct) auto

lemma is_walk_hd: "is_walk par n s ws \<Longrightarrow> node n (hd ws)"
  by (cases ws) (auto dest: is_walk_nodes)

lemma find_bottleneck_walk:
  "is_walk par n s ws \<Longrightarrow> dims n c \<Longrightarrow> dims n f \<Longrightarrow> length par = n
   \<Longrightarrow> find_bottleneck c f par s (hd ws) pf acc
       = Some (Inr (walk_min c f pf ws, acc @ tl ws))"
proof (induction par n s ws arbitrary: pf acc rule: is_walk.induct)
  case (1 par n s)
  then show ?case by simp
next
  case (2 par n s v)
  then show ?case by (subst find_bottleneck.simps) simp
next
  case (3 par n s v u ws)
  note c = "3.prems"(2) and f = "3.prems"(3) and par = "3.prems"(4)
  from "3.prems"(1) have v: "v \<noteq> s" "node n v" "par ! nat v = u"
    and w: "is_walk par n s (u # ws)"
    by simp_all
  from w have u: "node n u" using is_walk_hd by fastforce
  have "find_bottleneck c f par s v pf acc
        = find_bottleneck c f par s u (py_min pf (residual c f u v)) (acc @ [u])"
    using v(1,3)
    by (subst find_bottleneck.simps)
       (simp add: py_get_node[OF v(2) par] mget_node[OF c u v(2)]
          mget_node[OF f u v(2)] residual_def)
  also have "\<dots> = Some (Inr (walk_min c f (py_min pf (residual c f u v)) (u # ws),
                        (acc @ [u]) @ tl (u # ws)))"
    using "3.IH"[OF w c f par] by simp
  finally show ?case by simp
qed

lemma dims_bump: "dims n m \<Longrightarrow> dims n (bump m i j x)"
proof -
  assume d: "dims n m"
  have "length (m[nat i := (m ! nat i)[nat j := y]] ! k) = n" if "k < n" for k y
    using d that by (cases "k = nat i") (simp_all add: dims_def list_all_length)
  with d show ?thesis by (simp add: dims_def bump_def list_all_length)
qed

lemma ent_bump:
  assumes "dims n m" and "node n i" and "node n j" and "node n a" and "node n b"
  shows "ent (bump m i j x) a b = ent m a b + (if a = i \<and> b = j then x else 0)"
proof -
  have len: "length m = n" using assms(1) by (simp add: dims_def)
  have row: "length (m ! nat i) = n" using assms(1,2) by (simp add: dims_row node_nat_less)
  show ?thesis
    using assms(2-5) len row
    by (auto simp: ent_def bump_def nth_list_update node_nat_less node_nat_eq)
qed

lemma madd_node:
  assumes "dims n m" and "node n i" and "node n j"
  shows "madd m i j x = Inr (bump m i j x)"
proof -
  have len: "length m = n" using assms(1) by (simp add: dims_def)
  have row: "length (m ! nat i) = n" using assms(1,2) by (simp add: dims_row node_nat_less)
  show ?thesis
    by (simp add: madd_def mset_def mget_node[OF assms] py_get_node[OF assms(2) len]
        py_set_node[OF assms(3) row] py_set_node[OF assms(2) len] bump_def ent_def)
qed

lemma msub_node:
  assumes "dims n m" and "node n i" and "node n j"
  shows "msub m i j x = Inr (bump m i j (- x))"
proof -
  have len: "length m = n" using assms(1) by (simp add: dims_def)
  have row: "length (m ! nat i) = n" using assms(1,2) by (simp add: dims_row node_nat_less)
  show ?thesis
    by (simp add: msub_def mset_def mget_node[OF assms] py_get_node[OF assms(2) len]
        py_set_node[OF assms(3) row] py_set_node[OF assms(2) len] bump_def ent_def)
qed

lemma push_flow_walk:
  "is_walk par n s ws \<Longrightarrow> dims n m \<Longrightarrow> length par = n
   \<Longrightarrow> push_flow m par s (hd ws) pf = Some (Inr (push_walk m pf ws))"
proof (induction par n s ws arbitrary: m rule: is_walk.induct)
  case (1 par n s)
  then show ?case by simp
next
  case (2 par n s v)
  then show ?case by (subst push_flow.simps) simp
next
  case (3 par n s v u ws)
  note m = "3.prems"(2) and par = "3.prems"(3)
  from "3.prems"(1) have v: "v \<noteq> s" "node n v" "par ! nat v = u"
    and w: "is_walk par n s (u # ws)"
    by simp_all
  from w have u: "node n u" using is_walk_hd by fastforce
  let ?m1 = "bump m u v pf"
  let ?m2 = "bump ?m1 v u (- pf)"
  have d1: "dims n ?m1" using m by (rule dims_bump)
  have d2: "dims n ?m2" using d1 by (rule dims_bump)
  have "push_flow m par s v pf = push_flow ?m2 par s u pf"
    using v(1,3)
    by (subst push_flow.simps)
       (simp add: py_get_node[OF v(2) par] madd_node[OF m u v(2)] msub_node[OF d1 v(2) u])
  also have "\<dots> = Some (Inr (push_walk ?m2 pf (u # ws)))"
    using "3.IH"[OF w d2 par] by simp
  finally show ?case by simp
qed

lemma dims_push_walk: "dims n m \<Longrightarrow> dims n (push_walk m pf ws)"
  by (induction m pf ws rule: push_walk.induct) (simp_all add: dims_bump)

lemma antisymD: "antisym n m \<Longrightarrow> node n a \<Longrightarrow> node n b \<Longrightarrow> ent m a b = - ent m b a"
  unfolding antisym_def by blast

lemma withinD: "within c n m \<Longrightarrow> node n a \<Longrightarrow> node n b \<Longrightarrow> ent m a b \<le> ent c a b"
  unfolding within_def by blast

lemma ent_step:
  assumes "dims n m" and "node n u" and "node n v" and "node n a" and "node n b"
  shows "ent (bump (bump m u v pf) v u (- pf)) a b
         = ent m a b + (if a = u \<and> b = v then pf else 0) - (if a = v \<and> b = u then pf else 0)"
  using ent_bump[OF dims_bump[OF assms(1)] assms(3,2,4,5), of u v pf "- pf"]
    ent_bump[OF assms(1,2,3,4,5), of pf]
  by simp

lemma node_mem: "node n v = (v \<in> {0..<int n})"
  by (auto simp: node_def)

lemma rowsum_step:
  assumes "dims n m" and "node n u" and "node n v" and "node n a"
  shows "rowsum (bump (bump m u v pf) v u (- pf)) n a
         = rowsum m n a + (if a = u then pf else 0) - (if a = v then pf else 0)"
proof -
  have "rowsum (bump (bump m u v pf) v u (- pf)) n a
        = (\<Sum>b \<in> {0..<int n}. ent m a b + (if a = u \<and> b = v then pf else 0)
                                - (if a = v \<and> b = u then pf else 0))"
    unfolding rowsum_def
    by (rule sum.cong[OF refl]) (simp add: ent_step[OF assms(1,2,3,4)] node_mem)
  also have "\<dots> = rowsum m n a + (\<Sum>b \<in> {0..<int n}. if a = u \<and> b = v then pf else 0)
                  - (\<Sum>b \<in> {0..<int n}. if a = v \<and> b = u then pf else 0)"
    by (simp add: rowsum_def sum.distrib sum_subtractf)
  also have "(\<Sum>b \<in> {0..<int n}. if a = u \<and> b = v then pf else 0) = (if a = u then pf else 0)"
    using assms(3) by (cases "a = u") (simp_all add: node_mem)
  also have "(\<Sum>b \<in> {0..<int n}. if a = v \<and> b = u then pf else 0) = (if a = v then pf else 0)"
    using assms(2) by (cases "a = v") (simp_all add: node_mem)
  finally show ?thesis .
qed

lemma rowsum_push_walk:
  "dims n m \<Longrightarrow> \<forall>x \<in> set ws. node n x \<Longrightarrow> ws \<noteq> [] \<Longrightarrow> node n a
   \<Longrightarrow> rowsum (push_walk m pf ws) n a
       = rowsum m n a + (if a = last ws then pf else 0) - (if a = hd ws then pf else 0)"
proof (induction m pf ws rule: push_walk.induct)
  case (1 m pf v u ws)
  let ?m2 = "bump (bump m u v pf) v u (- pf)"
  from "1.prems" have u: "node n u" and v: "node n v" by simp_all
  have d2: "dims n ?m2" using "1.prems"(1) by (intro dims_bump)
  have "rowsum (push_walk ?m2 pf (u # ws)) n a
        = rowsum ?m2 n a + (if a = last (u # ws) then pf else 0) - (if a = u then pf else 0)"
    using "1.IH"[OF d2] "1.prems" by simp
  then show ?case
    by (simp add: rowsum_step[OF "1.prems"(1) u v "1.prems"(4)])
qed simp_all

lemma antisym_step:
  assumes "dims n m" and "node n u" and "node n v" and "antisym n m"
  shows "antisym n (bump (bump m u v pf) v u (- pf))"
  unfolding antisym_def
proof (intro allI impI)
  fix a b assume ab: "node n a" "node n b"
  let ?m2 = "bump (bump m u v pf) v u (- pf)"
  from assms(4) ab have h: "ent m a b = - ent m b a" by (rule antisymD)
  have e1: "ent ?m2 a b
     = ent m a b + (if a = u \<and> b = v then pf else 0) - (if a = v \<and> b = u then pf else 0)"
    by (rule ent_step[OF assms(1,2,3) ab])
  have e2: "ent ?m2 b a
     = ent m b a + (if b = u \<and> a = v then pf else 0) - (if b = v \<and> a = u then pf else 0)"
    by (rule ent_step[OF assms(1,2,3) ab(2,1)])
  have "ent ?m2 a b + ent ?m2 b a = ent m a b + ent m b a"
    unfolding e1 e2 by (simp add: conj_commute)
  with h show "ent ?m2 a b = - ent ?m2 b a" by linarith
qed

lemma antisym_push_walk:
  "dims n m \<Longrightarrow> \<forall>x \<in> set ws. node n x \<Longrightarrow> antisym n m \<Longrightarrow> antisym n (push_walk m pf ws)"
proof (induction m pf ws rule: push_walk.induct)
  case (1 m pf v u ws)
  let ?m2 = "bump (bump m u v pf) v u (- pf)"
  from "1.prems" have u: "node n u" and v: "node n v" by simp_all
  have d2: "dims n ?m2" using "1.prems"(1) by (intro dims_bump)
  have "antisym n ?m2" using "1.prems"(1) u v "1.prems"(3) by (rule antisym_step)
  with "1.IH"[OF d2] "1.prems"(2) show ?case by simp
qed simp_all

lemma walk_edges_nodes: "(x, y) \<in> set (walk_edges ws) \<Longrightarrow> x \<in> set ws \<and> y \<in> set ws"
  by (induction ws rule: walk_edges.induct) auto

lemma within_step:
  assumes m: "dims n m" and u: "node n u" and v: "node n v" and uv: "u \<noteq> v"
    and pf: "0 \<le> pf" and w: "within c n m" and e: "ent m u v + pf \<le> ent c u v"
  shows "within c n (bump (bump m u v pf) v u (- pf))"
  unfolding within_def
proof (intro allI impI)
  fix a b assume ab: "node n a" "node n b"
  from w ab have h: "ent m a b \<le> ent c a b" by (rule withinD)
  show "ent (bump (bump m u v pf) v u (- pf)) a b \<le> ent c a b"
    unfolding ent_step[OF m u v ab] using h e pf uv by auto
qed

lemma within_push_walk:
  "dims n m \<Longrightarrow> \<forall>x \<in> set ws. node n x \<Longrightarrow> distinct ws \<Longrightarrow> 0 \<le> pf \<Longrightarrow> within c n m
   \<Longrightarrow> \<forall>e \<in> set (walk_edges ws). ent m (fst e) (snd e) + pf \<le> ent c (fst e) (snd e)
   \<Longrightarrow> within c n (push_walk m pf ws)"
proof (induction m pf ws rule: push_walk.induct)
  case (1 m pf v u ws)
  let ?m2 = "bump (bump m u v pf) v u (- pf)"
  from "1.prems" have u: "node n u" and v: "node n v" and uv: "u \<noteq> v" by auto
  have d2: "dims n ?m2" using "1.prems"(1) by (intro dims_bump)
  have e: "ent m u v + pf \<le> ent c u v" using "1.prems"(6) by simp
  have w2: "within c n ?m2"
    using "1.prems"(1) u v uv "1.prems"(4,5) e by (rule within_step)
  have rest: "\<forall>e \<in> set (walk_edges (u # ws)).
                ent ?m2 (fst e) (snd e) + pf \<le> ent c (fst e) (snd e)"
  proof
    fix e assume e: "e \<in> set (walk_edges (u # ws))"
    obtain x y where xy: "e = (x, y)" by (cases e)
    with e have mem: "x \<in> set (u # ws)" "y \<in> set (u # ws)"
      using walk_edges_nodes[of x y "u # ws"] by simp_all
    with "1.prems"(2,3) have n: "node n x" "node n y" and ne: "x \<noteq> v" "y \<noteq> v" by auto
    have "ent ?m2 x y = ent m x y"
      unfolding ent_step[OF "1.prems"(1) u v n] using ne by simp
    moreover have "ent m x y + pf \<le> ent c x y" using "1.prems"(6) e xy by auto
    ultimately show "ent ?m2 (fst e) (snd e) + pf \<le> ent c (fst e) (snd e)"
      using xy by simp
  qed
  from "1.IH"[OF d2 _ _ "1.prems"(4) w2 rest] "1.prems"(2,3) show ?case by simp
qed simp_all

lemma walk_min_le:
  "walk_min c f pf ws = Some m
   \<Longrightarrow> (\<forall>e \<in> set (walk_edges ws). m \<le> residual c f (fst e) (snd e))
       \<and> (\<forall>p. pf = Some p \<longrightarrow> m \<le> p)"
proof (induction c f pf ws rule: walk_min.induct)
  case (1 c f pf v u ws)
  from "1.prems" have "walk_min c f (py_min pf (residual c f u v)) (u # ws) = Some m" by simp
  from "1.IH"[OF this] show ?case by (cases pf) auto
qed simp_all

lemma walk_min_mem:
  "walk_min c f pf ws = Some m
   \<Longrightarrow> pf = Some m \<or> m \<in> (\<lambda>e. residual c f (fst e) (snd e)) ` set (walk_edges ws)"
proof (induction c f pf ws rule: walk_min.induct)
  case (1 c f pf v u ws)
  from "1.prems" have "walk_min c f (py_min pf (residual c f u v)) (u # ws) = Some m" by simp
  from "1.IH"[OF this] show ?case by (cases pf) (auto simp: min_def split: if_splits)
qed simp_all

lemma walk_min_Some:
  "pf \<noteq> None \<or> walk_edges ws \<noteq> [] \<Longrightarrow> \<exists>m. walk_min c f pf ws = Some m"
proof (induction c f pf ws rule: walk_min.induct)
  case (1 c f pf v u ws)
  have "py_min pf (residual c f u v) \<noteq> None" by (cases pf) simp_all
  from "1.IH" this show ?case by simp
qed auto

lemma rwalk_rev_edges:
  "rwalk c f n (rev ws) \<Longrightarrow> \<forall>e \<in> set (walk_edges ws). 0 < residual c f (fst e) (snd e)"
proof (induction ws rule: walk_edges.induct)
  case (1 v u ws)
  have ne: "rev ws @ [u] \<noteq> []" by simp
  from "1.prems" have "rwalk c f n ((rev ws @ [u]) @ [v])" by simp
  then have "rwalk c f n (rev ws @ [u])" "0 < residual c f u v"
    unfolding rwalk_snoc[of c f n "rev ws @ [u]" v] using ne by simp_all
  with "1.IH" show ?case by simp
qed simp_all

lemma ent_zeros: "node n a \<Longrightarrow> node n b \<Longrightarrow> ent (zeros n) a b = 0"
  by (simp add: ent_def zeros_def node_nat_less)

lemma valid_nonneg:
  assumes "valid_input c s t" and "node (length c) a" and "node (length c) b"
  shows "0 \<le> ent c a b"
proof -
  from assms(1) have d: "dims (length c) c" and nn: "list_all (list_all (\<lambda>x. 0 \<le> x)) c"
    by (simp_all add: valid_input_def)
  have "nat a < length c" using assms(2) by (rule node_nat_less)
  with nn have row: "list_all (\<lambda>x. 0 \<le> x) (c ! nat a)" by (simp add: list_all_length)
  have "length (c ! nat a) = length c" using d assms(2) by (simp add: dims_row node_nat_less)
  with row assms(3) show ?thesis by (simp add: list_all_length ent_def node_nat_less)
qed

lemma ek_inv_init:
  assumes "valid_input c s t"
  shows "ek_inv c s t (ek_init c)"
proof -
  let ?n = "length c"
  have "within c ?n (zeros ?n)"
    unfolding within_def using valid_nonneg[OF assms] by (simp add: ent_zeros)
  moreover have "antisym ?n (zeros ?n)"
    unfolding antisym_def by (simp add: ent_zeros)
  moreover have "rowsum (zeros ?n) ?n a = 0" if "node ?n a" for a
    unfolding rowsum_def using that by (intro sum.neutral) (simp add: ent_zeros node_mem)
  ultimately show ?thesis
    using assms by (simp add: ek_inv_def ek_init_def Let_def dims_zeros valid_input_def)
qed

lemma ek_iteration_found:
  assumes c: "dims n c" and f: "dims n (flow_matrix st)" and n: "n = length c"
    and b: "bfs c (flow_matrix st) s t (parent st) = Inr (True, par)"
    and found: "bfs_found c (flow_matrix st) n s t par" and t: "node n t" and st: "s \<noteq> t"
  shows "\<exists>ws pf st'. ek_iteration c s t st = Some (Inr (Some st'))
           \<and> parent st' = par \<and> augments c s t st st' ws pf"
proof -
  let ?f = "flow_matrix st"
  from bfs_found_walk[OF found t] obtain ws where par: "length par = n"
    and ws: "is_walk par n s ws" "hd ws = t" "shortest_aug c ?f n s t (rev ws)"
    by blast
  from ws(1) have ne: "ws \<noteq> []" by auto
  have last: "last ws = s" using ws(1) by (rule is_walk_last)
  obtain v u ws' where wsc: "ws = v # u # ws'"
  proof (cases ws)
    case Nil
    with ne show ?thesis by simp
  next
    case (Cons v rest)
    show ?thesis
    proof (cases rest)
      case Nil
      with Cons last ws(2) st show ?thesis by simp
    next
      case (Cons u ws')
      with \<open>ws = v # rest\<close> that show ?thesis by simp
    qed
  qed
  then have edges: "walk_edges ws \<noteq> []" by simp
  from walk_min_Some[of None ws c ?f] edges obtain pf where pf: "walk_min c ?f None ws = Some pf"
    by blast
  have rw: "rwalk c ?f n (rev ws)" using ws(3) by (simp add: shortest_aug_def)
  from walk_min_mem[OF pf] rwalk_rev_edges[OF rw] have pos: "1 \<le> pf" by auto
  have fb: "find_bottleneck c ?f par s t None [t] = Some (Inr (Some pf, ws))"
    using find_bottleneck_walk[OF ws(1) c f par, of None "[t]"] ws(2) ne pf
    by (cases ws) simp_all
  have pw: "push_flow ?f par s t pf = Some (Inr (push_walk ?f pf ws))"
    using push_flow_walk[OF ws(1) f par, of pf] ws(2) by simp
  let ?st' = "\<lparr>flow_matrix = push_walk ?f pf ws, parent = par,
               max_flow = max_flow st + pf,
               path_history = path_history st @ [\<lparr>path = rev ws, flow = pf\<rparr>]\<rparr>"
  have "ek_iteration c s t st = Some (Inr (Some ?st'))"
    by (simp add: ek_iteration_def b fb pw)
  moreover have "augments c s t st ?st' ws pf"
    using ws pf pos n by (simp add: augments_def)
  ultimately show ?thesis by (intro exI[of _ ws] exI[of _ pf] exI[of _ ?st']) simp
qed

lemma augments_inv:
  assumes v: "valid_input c s t" and inv: "ek_inv c s t st"
    and aug: "augments c s t st st' ws pf" and par: "length (parent st') = length c"
  shows "ek_inv c s t st'"
proof -
  let ?n = "length c" and ?f = "flow_matrix st"
  from v have s: "node ?n s" and t: "node ?n t" and st: "s \<noteq> t"
    by (simp_all add: valid_input_def)
  from inv have f: "dims ?n ?f" and w: "within c ?n ?f" and a: "antisym ?n ?f"
    and cons: "\<And>x. node ?n x \<Longrightarrow> x \<noteq> s \<Longrightarrow> x \<noteq> t \<Longrightarrow> rowsum ?f ?n x = 0"
    and mf: "max_flow st = rowsum ?f ?n s"
    and h1: "max_flow st = sum_list (map flow (path_history st))"
    and h2: "\<forall>e \<in> set (path_history st). 1 \<le> flow e"
    by (simp_all add: ek_inv_def Let_def)
  from aug have ws: "is_walk (parent st') ?n s ws" "hd ws = t"
    and sa: "shortest_aug c ?f ?n s t (rev ws)"
    and pf: "walk_min c ?f None ws = Some pf" "1 \<le> pf"
    and f': "flow_matrix st' = push_walk ?f pf ws"
    and mf': "max_flow st' = max_flow st + pf"
    and h': "path_history st' = path_history st @ [\<lparr>path = rev ws, flow = pf\<rparr>]"
    by (simp_all add: augments_def)
  have nodes: "\<forall>x \<in> set ws. node ?n x" using ws(1) by (auto dest: is_walk_nodes)
  have ne: "ws \<noteq> []" using ws(1) by auto
  have last: "last ws = s" using ws(1) by (rule is_walk_last)
  have dist: "distinct ws" using sa by (simp add: shortest_aug_def)
  have rw: "rwalk c ?f ?n (rev ws)" using sa by (simp add: shortest_aug_def)
  have cap: "\<forall>e \<in> set (walk_edges ws). ent ?f (fst e) (snd e) + pf \<le> ent c (fst e) (snd e)"
    using walk_min_le[OF pf(1)] by (auto simp: residual_def)
  have rs: "rowsum (push_walk ?f pf ws) ?n x
            = rowsum ?f ?n x + (if x = s then pf else 0) - (if x = t then pf else 0)"
    if "node ?n x" for x
    using rowsum_push_walk[OF f nodes ne that, of pf] last ws(2) by simp
  show ?thesis
    unfolding ek_inv_def Let_def f'
  proof (intro conjI allI impI)
    show "dims ?n (push_walk ?f pf ws)" using f by (rule dims_push_walk)
    show "length (parent st') = ?n" by (rule par)
    show "within c ?n (push_walk ?f pf ws)"
      using f nodes dist _ w cap by (rule within_push_walk) (use pf(2) in simp)
    show "antisym ?n (push_walk ?f pf ws)" using f nodes a by (rule antisym_push_walk)
    show "max_flow st' = rowsum (push_walk ?f pf ws) ?n s"
      using rs[OF s] st mf mf' by simp
    show "max_flow st' = sum_list (map flow (path_history st'))"
      using h1 mf' h' by simp
    show "\<forall>e \<in> set (path_history st'). 1 \<le> flow e" using h2 h' pf(2) by simp
  next
    fix x assume "node ?n x" "x \<noteq> s" "x \<noteq> t"
    then show "rowsum (push_walk ?f pf ws) ?n x = 0" using rs[of x] cons[of x] by simp
  qed
qed

lemma ek_iteration_cases:
  assumes v: "valid_input c s t" and inv: "ek_inv c s t st"
  shows "(ek_iteration c s t st = Some (Inr None)
          \<and> (\<exists>S. saturated_cut c (flow_matrix st) (length c) s t S))
       \<or> (\<exists>ws pf st'. ek_iteration c s t st = Some (Inr (Some st'))
            \<and> augments c s t st st' ws pf \<and> ek_inv c s t st')"
proof -
  let ?n = "length c" and ?f = "flow_matrix st"
  from v have c: "dims ?n c" and s: "node ?n s" and t: "node ?n t" and st: "s \<noteq> t"
    by (simp_all add: valid_input_def)
  from inv have f: "dims ?n ?f" and par: "length (parent st) = ?n"
    by (simp_all add: ek_inv_def Let_def)
  from bfs_post[OF c f par s t st] obtain b par' where
    b: "bfs c ?f s t (parent st) = Inr (b, par')"
    and post: "if b then bfs_found c ?f ?n s t par' else bfs_done c ?f ?n s t par'"
    by blast
  show ?thesis
  proof (cases b)
    case False
    with post have "\<exists>S. saturated_cut c ?f ?n s t S" by (simp add: bfs_done_cut)
    moreover have "ek_iteration c s t st = Some (Inr None)"
      using b False by (simp add: ek_iteration_def)
    ultimately show ?thesis by simp
  next
    case True
    with post have found: "bfs_found c ?f ?n s t par'" by simp
    from b True have b': "bfs c ?f s t (parent st) = Inr (True, par')" by simp
    from ek_iteration_found[OF c f refl b' found t st] obtain ws pf st'
      where it: "ek_iteration c s t st = Some (Inr (Some st'))" and p: "parent st' = par'"
        and aug: "augments c s t st st' ws pf"
      by blast
    have "length par' = ?n" using bfs_found_walk[OF found t] by simp
    with p have "length (parent st') = ?n" by simp
    with v inv aug have "ek_inv c s t st'" by (rule augments_inv)
    with it aug show ?thesis by blast
  qed
qed

lemma reachable_inv:
  assumes "valid_input c s t"
  shows "ek_reachable c s t st \<Longrightarrow> ek_inv c s t st"
proof (induction rule: ek_reachable.induct)
  case init
  from assms show ?case by (rule ek_inv_init)
next
  case (step st st')
  from ek_iteration_cases[OF assms step.IH] step.hyps(2) show ?case by auto
qed

lemma flow_bound:
  assumes "ek_inv c s t st" and "node (length c) s"
  shows "max_flow st \<le> rowsum c (length c) s"
proof -
  from assms(1) have w: "within c (length c) (flow_matrix st)"
    and mf: "max_flow st = rowsum (flow_matrix st) (length c) s"
    by (simp_all add: ek_inv_def Let_def)
  have "rowsum (flow_matrix st) (length c) s \<le> rowsum c (length c) s"
    unfolding rowsum_def
    by (rule sum_mono) (simp add: withinD[OF w assms(2)] node_mem)
  with mf show ?thesis by simp
qed

lemma ek_loop_total:
  assumes v: "valid_input c s t"
  shows "ek_reachable c s t st
         \<Longrightarrow> \<exists>st'. ek_loop c s t st
                    = Some (Inr (max_flow st', flow_matrix st', path_history st'))
                \<and> ek_reachable c s t st'
                \<and> ek_iteration c s t st' = Some (Inr None)
                \<and> (\<exists>S. saturated_cut c (flow_matrix st') (length c) s t S)"
proof (induction "nat (rowsum c (length c) s - max_flow st)" arbitrary: st rule: less_induct)
  case less
  from v have s: "node (length c) s" by (simp add: valid_input_def)
  have inv: "ek_inv c s t st" using v less.prems by (rule reachable_inv)
  from ek_iteration_cases[OF v inv] show ?case
  proof (elim disjE conjE exE)
    assume it: "ek_iteration c s t st = Some (Inr None)"
    fix S assume S: "saturated_cut c (flow_matrix st) (length c) s t S"
    have "ek_loop c s t st = Some (Inr (max_flow st, flow_matrix st, path_history st))"
      by (subst ek_loop.simps) (simp add: it)
    with it S less.prems show ?thesis by blast
  next
    fix ws pf st1
    assume it: "ek_iteration c s t st = Some (Inr (Some st1))"
      and aug: "augments c s t st st1 ws pf" and inv1: "ek_inv c s t st1"
    have r1: "ek_reachable c s t st1" using less.prems it by (rule ek_reachable.step)
    from aug have "max_flow st1 = max_flow st + pf" "1 \<le> pf" by (simp_all add: augments_def)
    moreover have "max_flow st1 \<le> rowsum c (length c) s" using inv1 s by (rule flow_bound)
    ultimately have "nat (rowsum c (length c) s - max_flow st1)
                     < nat (rowsum c (length c) s - max_flow st)"
      by simp
    from less.hyps[OF this r1] obtain st' where
      "ek_loop c s t st1 = Some (Inr (max_flow st', flow_matrix st', path_history st'))"
      "ek_reachable c s t st'" "ek_iteration c s t st' = Some (Inr None)"
      "\<exists>S. saturated_cut c (flow_matrix st') (length c) s t S"
      by blast
    moreover have "ek_loop c s t st = ek_loop c s t st1"
      by (subst ek_loop.simps) (simp add: it)
    ultimately show ?thesis by (intro exI[of _ st']) simp
  qed
qed

lemma edmonds_karp_total:
  assumes v: "valid_input c s t"
  shows "\<exists>st'. edmonds_karp c s t
                = Some (Inr (max_flow st', flow_matrix st', path_history st'))
              \<and> ek_reachable c s t st'
              \<and> ek_inv c s t st'
              \<and> ek_iteration c s t st' = Some (Inr None)
              \<and> (\<exists>S. saturated_cut c (flow_matrix st') (length c) s t S)"
proof -
  from ek_loop_total[OF v ek_reachable.init] obtain st' where
    st': "ek_loop c s t (ek_init c)
          = Some (Inr (max_flow st', flow_matrix st', path_history st'))"
    "ek_reachable c s t st'" "ek_iteration c s t st' = Some (Inr None)"
    "\<exists>S. saturated_cut c (flow_matrix st') (length c) s t S"
    by blast
  from v st'(2) have "ek_inv c s t st'" by (rule reachable_inv)
  with st' show ?thesis unfolding edmonds_karp_def by blast
qed

section \<open>Properties of the solver\<close>

lemma valid_single_edge: "valid_input single_edge 0 1"
  by code_simp

lemma single_edge_iteration:
  "ek_iteration single_edge 0 1 (ek_init single_edge) = Some (Inr (Some single_edge_step))"
  by code_simp

lemma single_edge_reachable: "ek_reachable single_edge 0 1 single_edge_step"
  using ek_reachable.init single_edge_iteration by (rule ek_reachable.step)

lemma single_edge_result:
  "edmonds_karp single_edge 0 1
   = Some (Inr (1, [[0, 1], [- 1, 0]], [\<lparr>path = [0, 1], flow = 1\<rparr>]))"
  by code_simp

lemma valid_diamond: "valid_input diamond 0 3"
  by code_simp

lemma diamond_iteration:
  "ek_iteration diamond 0 3 (ek_init diamond) = Some (Inr (Some diamond_step))"
  by code_simp

lemma path_edges_snoc:
  "path_edges (p @ [x]) = (if p = [] then [] else path_edges p @ [(last p, x)])"
proof (induction p)
  case Nil
  then show ?case by (simp add: path_edges_def)
next
  case (Cons a p)
  then show ?case by (cases p) (simp_all add: path_edges_def)
qed

lemma walk_edges_rev: "set (walk_edges ws) = set (path_edges (rev ws))"
proof (induction ws rule: walk_edges.induct)
  case (1 v u ws)
  have "path_edges (rev (v # u # ws)) = path_edges (rev (u # ws)) @ [(u, v)]"
    using path_edges_snoc[of "rev ws @ [u]" v] by simp
  with 1 show ?case by auto
qed (simp_all add: path_edges_def)

lemma walk_min_bottleneck:
  assumes "walk_min c f None ws = Some pf"
  shows "pf = bottleneck c f (rev ws)"
proof -
  let ?R = "(\<lambda>e. residual c f (fst e) (snd e)) ` set (path_edges (rev ws))"
  from walk_min_mem[OF assms] have "pf \<in> ?R" by (simp add: walk_edges_rev)
  moreover from walk_min_le[OF assms] have "\<And>x. x \<in> ?R \<Longrightarrow> pf \<le> x"
    by (auto simp: walk_edges_rev)
  ultimately have "Min ?R = pf" by (intro Min_eqI) simp_all
  then show ?thesis by (simp add: bottleneck_def)
qed

lemma cut_no_walk:
  assumes cut: "saturated_cut c f n s t S"
  shows "rwalk c f n p \<Longrightarrow> hd p = s \<Longrightarrow> last p \<in> S"
proof (induction p rule: rev_induct)
  case Nil
  then show ?case by simp
next
  case (snoc v p)
  show ?case
  proof (cases "p = []")
    case True
    with snoc.prems cut show ?thesis by (simp add: saturated_cut_def)
  next
    case False
    with snoc.prems have w: "rwalk c f n p" "0 < residual c f (last p) v" "node n v"
      and h: "hd p = s"
      by (simp_all add: rwalk_snoc)
    from snoc.IH[OF w(1) h] have u: "last p \<in> S" .
    have "v \<in> S"
    proof (rule ccontr)
      assume "v \<notin> S"
      with cut u w(3) have "residual c f (last p) v \<le> 0"
        unfolding saturated_cut_def by blast
      with w(2) show False by simp
    qed
    then show ?thesis by simp
  qed
qed

lemma cut_no_augmenting:
  assumes "saturated_cut c f (length c) s t S"
  shows "\<not> (\<exists>p. augmenting c f s t p)"
proof
  assume "\<exists>p. augmenting c f s t p"
  then obtain p where "rwalk c f (length c) p" "hd p = s" "last p = t"
    by (auto simp: augmenting_def)
  with cut_no_walk[OF assms, of p] assms show False by (simp add: saturated_cut_def)
qed

lemma augments_summary:
  assumes "augments c s t st st' ws pf"
  shows "\<exists>e. path_history st' = path_history st @ [e]
           \<and> augmenting c (flow_matrix st) s t (path e)
           \<and> distinct (path e)
           \<and> (\<forall>q. augmenting c (flow_matrix st) s t q \<longrightarrow> length (path e) \<le> length q)
           \<and> flow e = bottleneck c (flow_matrix st) (path e) \<and> 1 \<le> flow e
           \<and> max_flow st' = max_flow st + flow e"
proof -
  from assms have sa: "shortest_aug c (flow_matrix st) (length c) s t (rev ws)"
    and pf: "walk_min c (flow_matrix st) None ws = Some pf" "1 \<le> pf"
    and mf: "max_flow st' = max_flow st + pf"
    and h: "path_history st' = path_history st @ [\<lparr>path = rev ws, flow = pf\<rparr>]"
    by (simp_all add: augments_def)
  from sa have "augmenting c (flow_matrix st) s t (rev ws)" "distinct (rev ws)"
    "\<forall>q. augmenting c (flow_matrix st) s t q \<longrightarrow> length (rev ws) \<le> length q"
    unfolding shortest_aug_def augmenting_def by blast+
  with pf mf h walk_min_bottleneck[OF pf(1)] show ?thesis
    by (intro exI[of _ "\<lparr>path = rev ws, flow = pf\<rparr>"]) simp
qed

lemma reverse_bound:
  assumes "antisym n m" and "within c n m" and "node n i" and "node n j"
  shows "- ent c j i \<le> ent m i j"
proof -
  have "ent m j i \<le> ent c j i" using assms(2,4,3) by (rule withinD)
  moreover have "ent m i j = - ent m j i" using assms(1,3,4) by (rule antisymD)
  ultimately show ?thesis by simp
qed

lemma colsum_neg:
  assumes "antisym n m" and "node n v"
  shows "(\<Sum>u \<in> {0..<int n}. ent m u v) = - rowsum m n v"
proof -
  have "(\<Sum>u \<in> {0..<int n}. ent m u v) = (\<Sum>u \<in> {0..<int n}. - ent m v u)"
    by (rule sum.cong[OF refl]) (simp add: antisymD[OF assms(1) _ assms(2)] node_mem)
  then show ?thesis by (simp add: rowsum_def sum_negf)
qed

lemma positive_parts:
  assumes "antisym n m" and "node n v"
  shows "(\<Sum>u \<in> {0..<int n}. max 0 (ent m v u)) - (\<Sum>u \<in> {0..<int n}. max 0 (ent m u v))
         = rowsum m n v"
proof -
  have "(\<Sum>u \<in> {0..<int n}. max 0 (ent m v u)) - (\<Sum>u \<in> {0..<int n}. max 0 (ent m u v))
        = (\<Sum>u \<in> {0..<int n}. max 0 (ent m v u) - max 0 (ent m u v))"
    by (simp add: sum_subtractf)
  also have "\<dots> = (\<Sum>u \<in> {0..<int n}. ent m v u)"
  proof (rule sum.cong[OF refl])
    fix u assume "u \<in> {0..<int n}"
    then have "ent m u v = - ent m v u" using antisymD[OF assms(1) _ assms(2)] by (simp add: node_mem)
    then show "max 0 (ent m v u) - max 0 (ent m u v) = ent m v u" by simp
  qed
  finally show ?thesis by (simp add: rowsum_def)
qed

lemma net_across_cut:
  fixes h :: "int \<Rightarrow> int \<Rightarrow> int"
  assumes V: "finite V" and S: "S \<subseteq> V" and s: "s \<in> S" and t: "t \<notin> S"
    and anti: "\<And>a b. a \<in> V \<Longrightarrow> b \<in> V \<Longrightarrow> h a b = - h b a"
    and cons: "\<And>a. a \<in> V \<Longrightarrow> a \<noteq> s \<Longrightarrow> a \<noteq> t \<Longrightarrow> (\<Sum>b \<in> V. h a b) = 0"
  shows "(\<Sum>u \<in> S. \<Sum>v \<in> V - S. h u v) = (\<Sum>b \<in> V. h s b)"
proof -
  have fS: "finite S" using V S by (rule rev_finite_subset)
  let ?X = "\<Sum>u \<in> S. \<Sum>v \<in> S. h u v"
  have "?X = (\<Sum>u \<in> S. \<Sum>v \<in> S. - h v u)"
    by (intro sum.cong refl) (use anti S in blast)
  also have "\<dots> = - (\<Sum>u \<in> S. \<Sum>v \<in> S. h v u)" by (simp add: sum_negf)
  also have "(\<Sum>u \<in> S. \<Sum>v \<in> S. h v u) = ?X" by (rule sum.swap)
  finally have X: "?X = 0" by simp
  have "(\<Sum>u \<in> S. \<Sum>b \<in> V. h u b) = (\<Sum>u \<in> S. (\<Sum>v \<in> V - S. h u v) + (\<Sum>v \<in> S. h u v))"
    by (intro sum.cong refl sum.subset_diff[OF S V])
  also have "\<dots> = (\<Sum>u \<in> S. \<Sum>v \<in> V - S. h u v) + ?X" by (simp add: sum.distrib)
  finally have split: "(\<Sum>u \<in> S. \<Sum>b \<in> V. h u b) = (\<Sum>u \<in> S. \<Sum>v \<in> V - S. h u v)"
    using X by simp
  have "(\<Sum>u \<in> S. \<Sum>b \<in> V. h u b) = (\<Sum>b \<in> V. h s b) + (\<Sum>u \<in> S - {s}. \<Sum>b \<in> V. h u b)"
    using fS s by (rule sum.remove)
  also have "(\<Sum>u \<in> S - {s}. \<Sum>b \<in> V. h u b) = 0"
    by (intro sum.neutral ballI cons) (use S t in auto)
  finally show ?thesis using split by simp
qed

lemma cut_upper_bound:
  fixes h :: "int \<Rightarrow> int \<Rightarrow> int"
  assumes cut: "is_cut n s t S"
    and anti: "\<And>a b. node n a \<Longrightarrow> node n b \<Longrightarrow> h a b = - h b a"
    and cons: "\<And>a. node n a \<Longrightarrow> a \<noteq> s \<Longrightarrow> a \<noteq> t \<Longrightarrow> (\<Sum>b \<in> {0..<int n}. h a b) = 0"
    and le: "\<And>a b. node n a \<Longrightarrow> node n b \<Longrightarrow> h a b \<le> ent c a b"
  shows "(\<Sum>b \<in> {0..<int n}. h s b) \<le> cut_capacity c n S"
proof -
  from cut have S: "S \<subseteq> {0..<int n}" "s \<in> S" "t \<notin> S" by (simp_all add: is_cut_def)
  have "(\<Sum>u \<in> S. \<Sum>v \<in> {0..<int n} - S. h u v) = (\<Sum>b \<in> {0..<int n}. h s b)"
    using _ S
  proof (rule net_across_cut)
    show "finite {0..<int n}" by simp
    show "h x y = - h y x" if "x \<in> {0..<int n}" "y \<in> {0..<int n}" for x y
      by (rule anti) (use that in \<open>simp_all add: node_mem\<close>)
    show "(\<Sum>b \<in> {0..<int n}. h x b) = 0" if "x \<in> {0..<int n}" "x \<noteq> s" "x \<noteq> t" for x
      by (rule cons) (use that in \<open>simp_all add: node_mem\<close>)
  qed
  moreover have "(\<Sum>u \<in> S. \<Sum>v \<in> {0..<int n} - S. h u v) \<le> cut_capacity c n S"
    unfolding cut_capacity_def
    by (intro sum_mono le) (use S in \<open>auto simp: node_mem\<close>)
  ultimately show ?thesis by simp
qed

lemma saturated_cut_capacity:
  assumes sat: "saturated_cut c f n s t S" and a: "antisym n f"
    and cons: "\<And>x. node n x \<Longrightarrow> x \<noteq> s \<Longrightarrow> x \<noteq> t \<Longrightarrow> rowsum f n x = 0"
    and w: "within c n f"
  shows "is_cut n s t S \<and> cut_capacity c n S = rowsum f n s"
proof -
  from sat have S: "S \<subseteq> {0..<int n}" "s \<in> S" "t \<notin> S"
    and full: "\<And>u v. u \<in> S \<Longrightarrow> node n v \<Longrightarrow> v \<notin> S \<Longrightarrow> residual c f u v \<le> 0"
    unfolding saturated_cut_def by (auto simp: node_mem)
  have "(\<Sum>u \<in> S. \<Sum>v \<in> {0..<int n} - S. ent f u v) = (\<Sum>b \<in> {0..<int n}. ent f s b)"
    using _ S
  proof (rule net_across_cut)
    show "finite {0..<int n}" by simp
    show "ent f x y = - ent f y x" if "x \<in> {0..<int n}" "y \<in> {0..<int n}" for x y
      by (rule antisymD[OF a]) (use that in \<open>simp_all add: node_mem\<close>)
    show "(\<Sum>b \<in> {0..<int n}. ent f x b) = 0" if "x \<in> {0..<int n}" "x \<noteq> s" "x \<noteq> t" for x
      using cons[of x] that by (simp add: node_mem rowsum_def)
  qed
  moreover have "(\<Sum>u \<in> S. \<Sum>v \<in> {0..<int n} - S. ent f u v) = cut_capacity c n S"
    unfolding cut_capacity_def
  proof (intro sum.cong refl)
    fix u v assume uv: "u \<in> S" "v \<in> {0..<int n} - S"
    then have n: "node n u" "node n v" using S by (auto simp: node_mem)
    from full[OF uv(1) n(2)] uv(2) have "ent c u v \<le> ent f u v" by (simp add: residual_def)
    with withinD[OF w n] show "ent f u v = ent c u v" by simp
  qed
  ultimately show ?thesis using S by (simp add: is_cut_def rowsum_def)
qed

lemma finite_cuts: "finite {S. is_cut n s t S}"
proof -
  have "{S. is_cut n s t S} \<subseteq> Pow {0..<int n}" by (auto simp: is_cut_def)
  then show ?thesis by (rule finite_subset) simp
qed

lemma feasible_upper_bound:
  assumes g: "feasible_flow c s t g" and cut: "is_cut (length c) s t S"
  shows "flow_value c s g \<le> cut_capacity c (length c) S"
proof -
  let ?n = "length c"
  let ?h = "\<lambda>u v. g u v - g v u"
  from cut have s: "node ?n s" by (auto simp: is_cut_def node_mem)
  from g have b: "\<And>u v. node ?n u \<Longrightarrow> node ?n v \<Longrightarrow> 0 \<le> g u v \<and> g u v \<le> ent c u v"
    and k: "\<And>v. node ?n v \<Longrightarrow> v \<noteq> s \<Longrightarrow> v \<noteq> t
              \<Longrightarrow> (\<Sum>u \<in> {0..<int ?n}. g u v) = (\<Sum>u \<in> {0..<int ?n}. g v u)"
    unfolding feasible_flow_def by blast+
  have "(\<Sum>b \<in> {0..<int ?n}. ?h s b) \<le> cut_capacity c ?n S"
    using cut
  proof (rule cut_upper_bound)
    show "?h a b = - ?h b a" for a b by simp
    show "(\<Sum>b \<in> {0..<int ?n}. ?h a b) = 0" if "node ?n a" "a \<noteq> s" "a \<noteq> t" for a
      using k[OF that] by (simp add: sum_subtractf)
    show "?h a b \<le> ent c a b" if "node ?n a" "node ?n b" for a b
      using b[OF that] b[OF that(2,1)] by simp
  qed
  then show ?thesis by (simp add: flow_value_def sum_subtractf)
qed

lemma positive_part_feasible:
  assumes v: "valid_input c s t" and w: "within c (length c) f" and a: "antisym (length c) f"
    and cons: "\<And>x. node (length c) x \<Longrightarrow> x \<noteq> s \<Longrightarrow> x \<noteq> t \<Longrightarrow> rowsum f (length c) x = 0"
  shows "feasible_flow c s t (\<lambda>u v. max 0 (ent f u v))
         \<and> flow_value c s (\<lambda>u v. max 0 (ent f u v)) = rowsum f (length c) s"
proof -
  let ?n = "length c"
  from v have s: "node ?n s" by (simp add: valid_input_def)
  have "0 \<le> max 0 (ent f x y) \<and> max 0 (ent f x y) \<le> ent c x y" if "node ?n x" "node ?n y" for x y
    using withinD[OF w that] valid_nonneg[OF v that] by simp
  moreover have "(\<Sum>u \<in> {0..<int ?n}. max 0 (ent f u x)) = (\<Sum>u \<in> {0..<int ?n}. max 0 (ent f x u))"
    if "node ?n x" "x \<noteq> s" "x \<noteq> t" for x
    using positive_parts[OF a that(1)] cons[OF that] by simp
  ultimately have "feasible_flow c s t (\<lambda>u v. max 0 (ent f u v))"
    unfolding feasible_flow_def by blast
  moreover have "flow_value c s (\<lambda>u v. max 0 (ent f u v)) = rowsum f ?n s"
    using positive_parts[OF a s] by (simp add: flow_value_def)
  ultimately show ?thesis by simp
qed

lemma back_edge_unreachable: "\<not> (\<exists>p. augmenting back_edge (zeros (length back_edge)) 0 1 p)"
proof
  assume "\<exists>p. augmenting back_edge (zeros (length back_edge)) 0 1 p"
  then obtain p where p0: "rwalk back_edge (zeros (length back_edge)) (length back_edge) p"
    and p23: "hd p = 0" "last p = 1"
    unfolding augmenting_def by blast
  have len: "length back_edge = 2" by (simp add: back_edge_def)
  note p = p0[unfolded len] p23
  have no: "\<not> 0 < residual back_edge (zeros 2) 0 v" if "node 2 v" for v
  proof -
    from that have "v = 0 \<or> v = 1" by (auto simp: node_def)
    then show ?thesis
      by (auto simp: residual_def ent_def back_edge_def zeros_def numeral_2_eq_2)
  qed
  show False
  proof (cases p)
    case Nil
    with p(1) show ?thesis by simp
  next
    case (Cons u rest)
    with p(2) have u: "u = 0" by simp
    show ?thesis
    proof (cases rest)
      case Nil
      with Cons u p(3) show ?thesis by simp
    next
      case (Cons v rest')
      with \<open>p = u # rest\<close> u p(1) have "0 < residual back_edge (zeros 2) 0 v" "node 2 v"
        by (auto dest: rwalk_nodes)
      with no show ?thesis by simp
    qed
  qed
qed

text \<open>
  C1.  For every square matrix of non-negative capacities and every source and sink in
  range with source different from sink, \<open>edmonds_karp\<close> returns, and the flow value it
  returns is the least capacity of a cut separating source and sink; no flow that respects
  the capacities and conserves flow has a greater value, and one of them has this value.
\<close>

theorem max_flow_min_cut:
  assumes "valid_input c s t"
  shows "\<exists>mf fm h. edmonds_karp c s t = Some (Inr (mf, fm, h))
           \<and> mf = Min (cut_capacity c (length c) ` {S. is_cut (length c) s t S})
           \<and> (\<forall>g. feasible_flow c s t g \<longrightarrow> flow_value c s g \<le> mf)
           \<and> (\<exists>g. feasible_flow c s t g \<and> flow_value c s g = mf)"
proof -
  let ?n = "length c"
  from edmonds_karp_total[OF assms] obtain st
    where st: "edmonds_karp c s t
                = Some (Inr (max_flow st, flow_matrix st, path_history st))
              \<and> ek_reachable c s t st
              \<and> ek_inv c s t st
              \<and> ek_iteration c s t st = Some (Inr None)
              \<and> (\<exists>S. saturated_cut c (flow_matrix st) ?n s t S)" ..
  let ?f = "flow_matrix st"
  from st have r: "edmonds_karp c s t = Some (Inr (max_flow st, ?f, path_history st))"
    by (rule conjunct1)
  from st have inv: "ek_inv c s t st" by simp
  from st obtain S where S: "saturated_cut c ?f ?n s t S" by (elim conjE exE)
  from inv have w: "within c ?n ?f" and a: "antisym ?n ?f"
    and cons: "\<And>x. node ?n x \<Longrightarrow> x \<noteq> s \<Longrightarrow> x \<noteq> t \<Longrightarrow> rowsum ?f ?n x = 0"
    and mf: "max_flow st = rowsum ?f ?n s"
    by (simp_all add: ek_inv_def Let_def)
  from saturated_cut_capacity[OF S a cons w]
  have cut: "is_cut ?n s t S" and cap: "cut_capacity c ?n S = max_flow st"
    by (simp_all add: mf)
  have lower: "max_flow st \<le> cut_capacity c ?n T" if "is_cut ?n s t T" for T
    unfolding mf rowsum_def using that
  proof (rule cut_upper_bound)
    show "ent ?f x y = - ent ?f y x" if "node ?n x" "node ?n y" for x y
      using a that by (rule antisymD)
    show "(\<Sum>b \<in> {0..<int ?n}. ent ?f x b) = 0" if "node ?n x" "x \<noteq> s" "x \<noteq> t" for x
      using cons[OF that] by (simp add: rowsum_def)
    show "ent ?f x y \<le> ent c x y" if "node ?n x" "node ?n y" for x y
      using w that by (rule withinD)
  qed
  have "Min (cut_capacity c ?n ` {S. is_cut ?n s t S}) = max_flow st"
  proof (rule Min_eqI)
    show "finite (cut_capacity c ?n ` {S. is_cut ?n s t S})"
      using finite_cuts by (rule finite_imageI)
    show "max_flow st \<le> y" if "y \<in> cut_capacity c ?n ` {S. is_cut ?n s t S}" for y
      using that lower by auto
    show "max_flow st \<in> cut_capacity c ?n ` {S. is_cut ?n s t S}"
      using cut cap by (auto simp: image_iff intro!: exI[of _ S])
  qed
  moreover have "flow_value c s g \<le> max_flow st" if "feasible_flow c s t g" for g
    using feasible_upper_bound[OF that cut] cap by simp
  moreover have "\<exists>g. feasible_flow c s t g \<and> flow_value c s g = max_flow st"
    using positive_part_feasible[OF assms w a cons] mf
    by (intro exI[of _ "\<lambda>u v. max 0 (ent ?f u v)"]) simp
  ultimately show ?thesis using r by (intro exI[of _ "max_flow st"] exI[of _ ?f]
        exI[of _ "path_history st"]) simp
qed

theorem max_flow_min_cut_witness:
  "\<exists>mf fm h. edmonds_karp diamond 0 3 = Some (Inr (mf, fm, h))
           \<and> mf = Min (cut_capacity diamond (length diamond) ` {S. is_cut (length diamond) 0 3 S})
           \<and> (\<forall>g. feasible_flow diamond 0 3 g \<longrightarrow> flow_value diamond 0 g \<le> mf)
           \<and> (\<exists>g. feasible_flow diamond 0 3 g \<and> flow_value diamond 0 g = mf)"
  by (rule max_flow_min_cut[OF valid_diamond])

text \<open>
  C2, as the code has it.  On valid input \<open>edmonds_karp\<close> returns a square flow matrix
  with \<open>-capacity[j][i] \<le> flow[i][j] \<le> capacity[i][j]\<close> for all pairs: an entry is
  bounded by the capacity from above and by the capacity of the reverse edge from below.
\<close>

theorem flow_within_capacity:
  assumes "valid_input c s t"
  shows "\<exists>mf fm h. edmonds_karp c s t = Some (Inr (mf, fm, h)) \<and> dims (length c) fm
           \<and> (\<forall>i j. node (length c) i \<longrightarrow> node (length c) j
                 \<longrightarrow> - ent c j i \<le> ent fm i j \<and> ent fm i j \<le> ent c i j)"
proof -
  from edmonds_karp_total[OF assms] obtain st
    where r: "edmonds_karp c s t = Some (Inr (max_flow st, flow_matrix st, path_history st))"
      and inv: "ek_inv c s t st"
    by blast
  from inv have d: "dims (length c) (flow_matrix st)"
    and w: "within c (length c) (flow_matrix st)" and a: "antisym (length c) (flow_matrix st)"
    by (simp_all add: ek_inv_def Let_def)
  have "\<forall>i j. node (length c) i \<longrightarrow> node (length c) j
          \<longrightarrow> - ent c j i \<le> ent (flow_matrix st) i j \<and> ent (flow_matrix st) i j \<le> ent c i j"
    using reverse_bound[OF a w] withinD[OF w] by blast
  with r d show ?thesis by blast
qed

theorem flow_within_capacity_witness:
  "\<exists>mf fm h. edmonds_karp diamond 0 3 = Some (Inr (mf, fm, h)) \<and> dims (length diamond) fm
           \<and> (\<forall>i j. node (length diamond) i \<longrightarrow> node (length diamond) j
                 \<longrightarrow> - ent diamond j i \<le> ent fm i j \<and> ent fm i j \<le> ent diamond i j)"
  by (rule flow_within_capacity[OF valid_diamond])

text \<open>
  C2 as stated fails: the returned matrix is not non-negative.  For the single edge from
  node 0 to node 1 with capacity 1 the entry \<open>flow[1][0]\<close> is \<open>-1\<close>.
\<close>

theorem flow_entry_negative:
  "valid_input single_edge 0 1
   \<and> edmonds_karp single_edge 0 1
       = Some (Inr (1, [[0, 1], [- 1, 0]], [\<lparr>path = [0, 1], flow = 1\<rparr>]))
   \<and> ent [[0, 1], [- 1, 0]] 1 0 < 0"
  using valid_single_edge single_edge_result by (simp add: ent_def)

text \<open>
  C3.  On valid input, in the flow matrix \<open>edmonds_karp\<close> returns every node other than
  source and sink conserves flow: the entries into the node and the entries out of it have
  the same sum, and so have the positive entries into it and the positive entries out of
  it.
\<close>

theorem flow_conservation:
  assumes "valid_input c s t"
  shows "\<exists>mf fm h. edmonds_karp c s t = Some (Inr (mf, fm, h))
           \<and> (\<forall>v. node (length c) v \<longrightarrow> v \<noteq> s \<longrightarrow> v \<noteq> t
                 \<longrightarrow> (\<Sum>u \<in> {0..<int (length c)}. ent fm u v)
                     = (\<Sum>u \<in> {0..<int (length c)}. ent fm v u)
                   \<and> (\<Sum>u \<in> {0..<int (length c)}. max 0 (ent fm u v))
                     = (\<Sum>u \<in> {0..<int (length c)}. max 0 (ent fm v u)))"
proof -
  let ?n = "length c"
  from edmonds_karp_total[OF assms] obtain st
    where r: "edmonds_karp c s t = Some (Inr (max_flow st, flow_matrix st, path_history st))"
      and inv: "ek_inv c s t st"
    by blast
  let ?f = "flow_matrix st"
  from inv have a: "antisym ?n ?f"
    and cons: "\<And>v. node ?n v \<Longrightarrow> v \<noteq> s \<Longrightarrow> v \<noteq> t \<Longrightarrow> rowsum ?f ?n v = 0"
    by (simp_all add: ek_inv_def Let_def)
  have "(\<Sum>u \<in> {0..<int ?n}. ent ?f u v) = (\<Sum>u \<in> {0..<int ?n}. ent ?f v u)
        \<and> (\<Sum>u \<in> {0..<int ?n}. max 0 (ent ?f u v)) = (\<Sum>u \<in> {0..<int ?n}. max 0 (ent ?f v u))"
    if v: "node ?n v" "v \<noteq> s" "v \<noteq> t" for v
    using colsum_neg[OF a v(1)] positive_parts[OF a v(1)] cons[OF v]
    by (simp add: rowsum_def)
  with r show ?thesis by blast
qed

theorem flow_conservation_witness:
  "\<exists>mf fm h. edmonds_karp diamond 0 3 = Some (Inr (mf, fm, h))
           \<and> (\<forall>v. node (length diamond) v \<longrightarrow> v \<noteq> 0 \<longrightarrow> v \<noteq> 3
                 \<longrightarrow> (\<Sum>u \<in> {0..<int (length diamond)}. ent fm u v)
                     = (\<Sum>u \<in> {0..<int (length diamond)}. ent fm v u)
                   \<and> (\<Sum>u \<in> {0..<int (length diamond)}. max 0 (ent fm u v))
                     = (\<Sum>u \<in> {0..<int (length diamond)}. max 0 (ent fm v u)))"
  by (rule flow_conservation[OF valid_diamond])

text \<open>
  C4.  On valid input \<open>edmonds_karp\<close> terminates, and the flow it returns admits no
  augmenting path.  From every state the loop reaches, one pass either leaves the loop,
  and then no augmenting path exists, or records an augmenting path and adds its
  bottleneck, which is at least 1, to \<open>max_flow\<close>.
\<close>

theorem edmonds_karp_terminates:
  assumes "valid_input c s t" and "ek_reachable c s t st"
  shows "(\<exists>mf fm h. edmonds_karp c s t = Some (Inr (mf, fm, h))
            \<and> \<not> (\<exists>p. augmenting c fm s t p))
       \<and> ((ek_iteration c s t st = Some (Inr None)
            \<and> \<not> (\<exists>p. augmenting c (flow_matrix st) s t p))
          \<or> (\<exists>st' e. ek_iteration c s t st = Some (Inr (Some st'))
                \<and> path_history st' = path_history st @ [e]
                \<and> augmenting c (flow_matrix st) s t (path e)
                \<and> flow e = bottleneck c (flow_matrix st) (path e)
                \<and> 1 \<le> flow e
                \<and> max_flow st' = max_flow st + flow e))"
proof
  from edmonds_karp_total[OF assms(1)] obtain st1
    where st1: "edmonds_karp c s t
                = Some (Inr (max_flow st1, flow_matrix st1, path_history st1))
              \<and> ek_reachable c s t st1
              \<and> ek_inv c s t st1
              \<and> ek_iteration c s t st1 = Some (Inr None)
              \<and> (\<exists>S. saturated_cut c (flow_matrix st1) (length c) s t S)" ..
  then have r: "edmonds_karp c s t
              = Some (Inr (max_flow st1, flow_matrix st1, path_history st1))"
    by (rule conjunct1)
  from st1 obtain S where S: "saturated_cut c (flow_matrix st1) (length c) s t S"
    by (elim conjE exE)
  from S have "\<not> (\<exists>p. augmenting c (flow_matrix st1) s t p)" by (rule cut_no_augmenting)
  with r show "\<exists>mf fm h. edmonds_karp c s t = Some (Inr (mf, fm, h))
            \<and> \<not> (\<exists>p. augmenting c fm s t p)"
    by blast
next
  from assms have inv: "ek_inv c s t st" by (rule reachable_inv)
  from ek_iteration_cases[OF assms(1) inv]
  show "(ek_iteration c s t st = Some (Inr None)
            \<and> \<not> (\<exists>p. augmenting c (flow_matrix st) s t p))
          \<or> (\<exists>st' e. ek_iteration c s t st = Some (Inr (Some st'))
                \<and> path_history st' = path_history st @ [e]
                \<and> augmenting c (flow_matrix st) s t (path e)
                \<and> flow e = bottleneck c (flow_matrix st) (path e)
                \<and> 1 \<le> flow e
                \<and> max_flow st' = max_flow st + flow e)"
  proof (elim disjE conjE exE)
    fix S assume "ek_iteration c s t st = Some (Inr None)"
      and "saturated_cut c (flow_matrix st) (length c) s t S"
    then show ?thesis using cut_no_augmenting by blast
  next
    fix ws pf st'
    assume it: "ek_iteration c s t st = Some (Inr (Some st'))"
      and aug: "augments c s t st st' ws pf"
    from augments_summary[OF aug] it show ?thesis by blast
  qed
qed

theorem edmonds_karp_terminates_witness:
  "(\<exists>mf fm h. edmonds_karp diamond 0 3 = Some (Inr (mf, fm, h))
            \<and> \<not> (\<exists>p. augmenting diamond fm 0 3 p))
       \<and> ((ek_iteration diamond 0 3 (ek_init diamond) = Some (Inr None)
            \<and> \<not> (\<exists>p. augmenting diamond (flow_matrix (ek_init diamond)) 0 3 p))
          \<or> (\<exists>st' e. ek_iteration diamond 0 3 (ek_init diamond) = Some (Inr (Some st'))
                \<and> path_history st' = path_history (ek_init diamond) @ [e]
                \<and> augmenting diamond (flow_matrix (ek_init diamond)) 0 3 (path e)
                \<and> flow e = bottleneck diamond (flow_matrix (ek_init diamond)) (path e)
                \<and> 1 \<le> flow e
                \<and> max_flow st' = max_flow (ek_init diamond) + flow e))"
  by (rule edmonds_karp_terminates[OF valid_diamond ek_reachable.init])

text \<open>
  C5.  In every pass of the loop that augments, the path appended to the path trace is an
  augmenting path of the residual network before the pass, and no augmenting path has
  fewer nodes, hence none has fewer edges.
\<close>

theorem bfs_path_shortest:
  assumes "valid_input c s t" and "ek_reachable c s t st"
    and "ek_iteration c s t st = Some (Inr (Some st'))"
  shows "\<exists>e. path_history st' = path_history st @ [e]
           \<and> augmenting c (flow_matrix st) s t (path e)
           \<and> (\<forall>q. augmenting c (flow_matrix st) s t q \<longrightarrow> length (path e) \<le> length q)"
proof -
  from assms(1,2) have inv: "ek_inv c s t st" by (rule reachable_inv)
  from ek_iteration_cases[OF assms(1) inv] assms(3) obtain ws pf
    where "augments c s t st st' ws pf"
    by auto
  from augments_summary[OF this] show ?thesis by blast
qed

theorem bfs_path_shortest_witness:
  "\<exists>e. path_history diamond_step = path_history (ek_init diamond) @ [e]
           \<and> augmenting diamond (flow_matrix (ek_init diamond)) 0 3 (path e)
           \<and> (\<forall>q. augmenting diamond (flow_matrix (ek_init diamond)) 0 3 q
                 \<longrightarrow> length (path e) \<le> length q)"
  by (rule bfs_path_shortest[OF valid_diamond ek_reachable.init diamond_iteration])

text \<open>
  C6.  In every state the loop reaches, that is after the initialisation and after each
  augmentation, the flow matrix is antisymmetric; and there is a reachable state with a
  nonzero entry \<open>flow[j][i]\<close> where \<open>capacity[j][i]\<close> is 0.
\<close>

theorem flow_antisymmetric_throughout:
  assumes "valid_input c s t" and "ek_reachable c s t st"
    and "node (length c) i" and "node (length c) j"
  shows "ent (flow_matrix st) i j = - ent (flow_matrix st) j i
       \<and> (\<exists>c' s' t' st' a b. valid_input c' s' t' \<and> ek_reachable c' s' t' st'
             \<and> node (length c') a \<and> node (length c') b
             \<and> ent c' b a = 0 \<and> ent (flow_matrix st') b a \<noteq> 0)"
proof
  from assms(1,2) have "ek_inv c s t st" by (rule reachable_inv)
  then have "antisym (length c) (flow_matrix st)" by (simp add: ek_inv_def Let_def)
  then show "ent (flow_matrix st) i j = - ent (flow_matrix st) j i"
    using assms(3,4) by (rule antisymD)
next
  have "node (length single_edge) 0 \<and> node (length single_edge) 1
        \<and> ent single_edge 1 0 = 0 \<and> ent (flow_matrix single_edge_step) 1 0 \<noteq> 0"
    by (simp add: node_def single_edge_def single_edge_step_def ent_def)
  with valid_single_edge single_edge_reachable
  show "\<exists>c' s' t' st' a b. valid_input c' s' t' \<and> ek_reachable c' s' t' st'
             \<and> node (length c') a \<and> node (length c') b
             \<and> ent c' b a = 0 \<and> ent (flow_matrix st') b a \<noteq> 0"
    by blast
qed

theorem flow_antisymmetric_throughout_witness:
  "ent (flow_matrix diamond_step) 1 0 = - ent (flow_matrix diamond_step) 0 1
   \<and> (\<exists>c' s' t' st' a b. valid_input c' s' t' \<and> ek_reachable c' s' t' st'
         \<and> node (length c') a \<and> node (length c') b
         \<and> ent c' b a = 0 \<and> ent (flow_matrix st') b a \<noteq> 0)"
proof -
  have r: "ek_reachable diamond 0 3 diamond_step"
    using ek_reachable.init diamond_iteration by (rule ek_reachable.step)
  have n: "node (length diamond) 1" "node (length diamond) 0"
    by (simp_all add: node_def diamond_def)
  show ?thesis by (rule flow_antisymmetric_throughout[OF valid_diamond r n])
qed

text \<open>
  C9, as the code has it.  For every square capacity matrix with source and sink in range
  and different, in which no path of positive capacities leads from the source to the
  sink, \<open>edmonds_karp\<close> does not fail: it returns the flow value 0, the flow matrix of
  zeros of the size of the capacity matrix, and the empty path trace.
\<close>

theorem unreachable_sink_zero_flow:
  assumes "dims (length c) c" and "node (length c) s" and "node (length c) t" and "s \<noteq> t"
    and "\<not> (\<exists>p. augmenting c (zeros (length c)) s t p)"
  shows "edmonds_karp c s t = Some (Inr (0, zeros (length c), []))"
proof -
  let ?n = "length c"
  let ?st = "ek_init c"
  have f: "flow_matrix ?st = zeros ?n" and par: "length (parent ?st) = ?n"
    by (simp_all add: ek_init_def Let_def)
  from bfs_post[OF assms(1) dims_zeros par assms(2,3,4)] obtain b par' where
    b: "bfs c (zeros ?n) s t (parent ?st) = Inr (b, par')"
    and post: "if b then bfs_found c (zeros ?n) ?n s t par' else bfs_done c (zeros ?n) ?n s t par'"
    by blast
  have "\<not> b"
  proof
    assume b
    with post have "bfs_found c (zeros ?n) ?n s t par'" by simp
    from bfs_found_walk[OF this assms(3)] obtain ws
      where "shortest_aug c (zeros ?n) ?n s t (rev ws)"
      by blast
    then have "augmenting c (zeros ?n) s t (rev ws)"
      by (simp add: shortest_aug_def augmenting_def)
    with assms(5) show False by blast
  qed
  with b have "ek_iteration c s t ?st = Some (Inr None)"
    by (simp add: ek_iteration_def f)
  then have "ek_loop c s t ?st = Some (Inr (max_flow ?st, flow_matrix ?st, path_history ?st))"
    by (subst ek_loop.simps) simp
  then show ?thesis by (simp add: edmonds_karp_def ek_init_def Let_def)
qed

theorem unreachable_sink_zero_flow_witness:
  "edmonds_karp back_edge 0 1 = Some (Inr (0, zeros (length back_edge), []))"
proof -
  have d: "dims (length back_edge) back_edge" by code_simp
  have s: "node (length back_edge) 0" and t: "node (length back_edge) 1"
    by (simp_all add: node_def back_edge_def)
  show ?thesis
    by (rule unreachable_sink_zero_flow[OF d s t _ back_edge_unreachable]) simp
qed

text \<open>
  C9 as stated fails for the empty graph: with no node there is no entry of \<open>visited\<close>
  to mark for the source, and the call raises IndexError.
\<close>

theorem empty_graph_raises: "edmonds_karp [] 0 0 = Some (Inl IndexError)"
  by code_simp

end
